theory Spec2Isabelle
  imports Main "HOL-Library.Log_Nat"
begin

section \<open>JavaScript values used by the size policy\<close>

text \<open>
  A JavaScript string is a sequence of UTF-16 code units; a code unit is modelled by its
  number. \<open>ascii\<close> turns an Isabelle string literal into that form, so that
  \<open>ascii ''12abc''\<close> stands for the JavaScript string \<^verbatim>\<open>"12abc"\<close>.
\<close>

type_synonym js_string = "nat list"

definition ascii :: "string \<Rightarrow> js_string" where
  "ascii cs = map of_char cs"

text \<open>
  The numbers that \<^verbatim>\<open>Number.parseInt\<close> can return: \<^verbatim>\<open>NaN\<close>, an
  integer-valued double, or an infinity. Negative zero is identified with zero: the code
  only compares the result with \<^verbatim>\<open>0\<close> and tests it for finiteness, and
  both treat the two zeros alike.
\<close>

datatype js_number = NaN | Fin int | PosInf | NegInf

fun isFinite :: "js_number \<Rightarrow> bool" where
  "isFinite (Fin n) = True"
| "isFinite NaN = False"
| "isFinite PosInf = False"
| "isFinite NegInf = False"

text \<open>\<^verbatim>\<open>x <= 0\<close> and \<^verbatim>\<open>x > 0\<close> on numbers; every comparison with
  \<^verbatim>\<open>NaN\<close> is false.\<close>

fun le_zero :: "js_number \<Rightarrow> bool" where
  "le_zero (Fin n) = (n \<le> 0)"
| "le_zero NaN = False"
| "le_zero PosInf = False"
| "le_zero NegInf = True"

fun gt_zero :: "js_number \<Rightarrow> bool" where
  "gt_zero (Fin n) = (0 < n)"
| "gt_zero NaN = False"
| "gt_zero PosInf = True"
| "gt_zero NegInf = False"

text \<open>
  The value of a finite number; only applied behind a finiteness test, as the code does.
\<close>

fun fin_value :: "js_number \<Rightarrow> int" where
  "fin_value (Fin n) = n"
| "fin_value NaN = 0"
| "fin_value PosInf = 0"
| "fin_value NegInf = 0"

subsection \<open>Rounding an integer to a double\<close>

text \<open>
  An integer of at most 53 bits is a double as it is. A longer one keeps its 53 leading
  bits, rounded to nearest with ties to even; a magnitude that rounds to \<open>2 ^ 1024\<close>
  or more is an infinity.
\<close>

definition round53 :: "nat \<Rightarrow> nat" where
  "round53 m =
     (let e = floorlog 2 m in
      if e \<le> 53 then m
      else
        (let sh = e - 53;
             q = m div 2 ^ sh;
             r = m mod 2 ^ sh;
             half = 2 ^ (sh - 1)
         in (if half < r \<or> (r = half \<and> odd q) then q + 1 else q) * 2 ^ sh))"

definition to_number :: "int \<Rightarrow> js_number" where
  "to_number n =
     (let r = round53 (nat \<bar>n\<bar>) in
      if 2 ^ 1024 \<le> r then (if n < 0 then NegInf else PosInf)
      else Fin (if n < 0 then - int r else int r))"

subsection \<open>\<^verbatim>\<open>Number.parseInt(s, 10)\<close>\<close>

text \<open>
  ECMAScript's \<^verbatim>\<open>parseInt\<close> with radix 10: leading white space and line
  terminators are dropped, one sign is read, then the longest run of decimal digits; what
  follows the run is ignored. An empty run gives \<^verbatim>\<open>NaN\<close>. With radix 10 a
  \<^verbatim>\<open>0x\<close> prefix is not special.
\<close>

definition is_white :: "nat \<Rightarrow> bool" where
  "is_white c =
     (c \<in> set [9, 10, 11, 12, 13, 32, 160, 5760, 8232, 8233, 8239, 8287, 12288, 65279]
      \<or> (8192 \<le> c \<and> c \<le> 8202))"

definition is_digit :: "nat \<Rightarrow> bool" where
  "is_digit c = (48 \<le> c \<and> c \<le> 57)"

definition digits_value :: "js_string \<Rightarrow> int" where
  "digits_value z = foldl (\<lambda>acc c. 10 * acc + (int c - 48)) 0 z"

definition js_parseInt :: "js_string \<Rightarrow> js_number" where
  "js_parseInt inputString =
     (let s = dropWhile is_white inputString;
          sign = (if s \<noteq> [] \<and> hd s = 45 then - 1 else 1);
          s' = (if s \<noteq> [] \<and> (hd s = 43 \<or> hd s = 45) then tl s else s);
          z = takeWhile is_digit s'
      in if z = [] then NaN else to_number (sign * digits_value z))"

section \<open>Configuration: \<^verbatim>\<open>envInt\<close> and the three limits\<close>

text \<open>
  \<^verbatim>\<open>envInt\<close>, given the value \<open>raw\<close> of \<^verbatim>\<open>process.env[name]\<close>, a string
  or undefined, in place of the name. An undefined or empty value is falsy and gives the
  fallback; so does a value that does not parse to a finite positive number. The
  fallbacks are integer literals, so the result is an integer.
\<close>

definition envInt :: "js_string option \<Rightarrow> int \<Rightarrow> int" where
  "envInt raw fallback =
     (case raw of
        None \<Rightarrow> fallback
      | Some s \<Rightarrow>
          if s = [] then fallback
          else
            (let n = js_parseInt s in
             if isFinite n \<and> gt_zero n then fin_value n else fallback))"

record config =
  DEFAULT_SIZE :: int
  MAX_DOWNLOAD :: int
  MAX_UPLOAD :: int

text \<open>
  The three constants that \<^verbatim>\<open>register\<close> reads from the environment \<open>env\<close>
  (\<^verbatim>\<open>process.env\<close>, a map from names to strings).
\<close>

definition register_config :: "(string \<Rightarrow> js_string option) \<Rightarrow> config" where
  "register_config env =
     \<lparr> DEFAULT_SIZE = envInt (env ''DEFAULT_SIZE'') (10 * 1024 * 1024),
       MAX_DOWNLOAD = envInt (env ''MAX_DOWNLOAD'') (100 * 1024 * 1024),
       MAX_UPLOAD = envInt (env ''MAX_UPLOAD'') (100 * 1024 * 1024) \<rparr>"

section \<open>Size resolution of \<^verbatim>\<open>GET /download\<close>\<close>

text \<open>
  \<^verbatim>\<open>String(req.query.size ?? "")\<close>: an absent parameter is the empty string.
\<close>

definition query_size :: "js_string option \<Rightarrow> js_string" where
  "query_size r = (case r of None \<Rightarrow> [] | Some s \<Rightarrow> s)"

definition download_size :: "config \<Rightarrow> js_string option \<Rightarrow> int" where
  "download_size cfg r =
     (let size0 = js_parseInt (query_size r);
          size1 = (if \<not> isFinite size0 \<or> le_zero size0 then DEFAULT_SIZE cfg
                   else fin_value size0)
      in if MAX_DOWNLOAD cfg < size1 then MAX_DOWNLOAD cfg else size1)"

section \<open>The download session of \<^verbatim>\<open>GET /download\<close>\<close>

subsection \<open>Numbers of the handler\<close>

text \<open>
  The handler's numbers are doubles with integer values; the model holds each as the
  integer it denotes. A subtraction of two of them is the exact difference rounded to the
  nearest double (ties to even). In the handler \<open>0 < len \<le> remaining\<close>, so the
  difference lies between 0 and \<open>remaining\<close> and cannot overflow. Below \<open>2 ^ 53\<close>
  the rounding changes nothing, and below \<open>2 ^ 69\<close> the difference of a double and a
  chunk length is still a double; at \<open>2 ^ 70\<close>, \<open>remaining - 65536\<close> rounds back
  to \<open>remaining\<close>.
\<close>

definition round_double :: "int \<Rightarrow> int" where
  "round_double n = (if n < 0 then - int (round53 (nat (- n))) else int (round53 (nat n)))"

definition double_sub :: "int \<Rightarrow> int \<Rightarrow> int" where
  "double_sub a b = round_double (a - b)"

definition CHUNK :: int where
  "CHUNK = 64 * 1024"

subsection \<open>\<^verbatim>\<open>String(total)\<close>\<close>

text \<open>The decimal digits of a natural number.\<close>

fun decimal :: "nat \<Rightarrow> js_string" where
  "decimal n = (if n < 10 then [48 + n] else decimal (n div 10) @ [48 + n mod 10])"

declare decimal.simps [simp del]

text \<open>
  ECMAScript's \<^verbatim>\<open>Number::toString\<close> on a positive integer-valued double \<open>m\<close>:
  among the triples \<open>(k, n, s)\<close> with \<open>s\<close> of \<open>k\<close> digits and \<open>s * 10 ^ (n - k)\<close>
  rounding to \<open>m\<close>, one with the least \<open>k\<close> is taken, the closest to \<open>m\<close> among
  those, an even \<open>s\<close> on a tie. The value \<open>s * 10 ^ (n - k)\<close> has as many digits as
  \<open>m\<close> or one more, \<open>s\<close> is the quotient of \<open>m\<close> by \<open>10 ^ (n - k)\<close> or the next
  integer, and 17 digits always suffice.
\<close>

definition candidates :: "nat \<Rightarrow> (nat \<times> nat \<times> nat) list" where
  "candidates m =
     (let d = length (decimal m) in
      concat (map (\<lambda>k.
        concat (map (\<lambda>n.
          concat (map (\<lambda>s.
            if k \<le> n \<and> 10 ^ (k - 1) \<le> s \<and> s < 10 ^ k \<and> round53 (s * 10 ^ (n - k)) = m
            then [(k, n, s)] else [])
            [m div 10 ^ (n - k), m div 10 ^ (n - k) + 1]))
          [d, d + 1]))
        [1..<18]))"

definition distance :: "nat \<Rightarrow> nat \<times> nat \<times> nat \<Rightarrow> int" where
  "distance m c = (case c of (k, n, s) \<Rightarrow> \<bar>int (s * 10 ^ (n - k)) - int m\<bar>)"

definition better :: "nat \<Rightarrow> nat \<times> nat \<times> nat \<Rightarrow> nat \<times> nat \<times> nat \<Rightarrow> nat \<times> nat \<times> nat" where
  "better m a b =
     (if distance m a < distance m b then a
      else if distance m b < distance m a then b
      else if even (snd (snd a)) then a else b)"

definition shortest :: "nat \<Rightarrow> (nat \<times> nat \<times> nat) option" where
  "shortest m =
     (case candidates m of
        [] \<Rightarrow> None
      | c # cs \<Rightarrow> Some (foldl (better m) c (filter (\<lambda>x. fst x = fst c) cs)))"

text \<open>
  Up to 21 digits the result is the digits of \<open>s\<close> followed by zeros, beyond that the
  exponent form. Below \<open>2 ^ 53\<close> every integer is a double and the result is its decimal
  digits. A number that is not a double has no candidate; the handler never has one.
\<close>

definition num_string :: "nat \<Rightarrow> js_string" where
  "num_string m =
     (if m < 2 ^ 53 then decimal m
      else
        (case shortest m of
           None \<Rightarrow> decimal m
         | Some (k, n, s) \<Rightarrow>
             if n \<le> 21 then decimal s @ replicate (n - k) 48
             else
               (let ds = decimal s in
                (if k = 1 then ds else hd ds # 46 # tl ds) @ [101, 43] @ decimal (n - 1))))"

definition js_String :: "int \<Rightarrow> js_string" where
  "js_String n = (if n < 0 then 45 # num_string (nat (- n)) else num_string (nat n))"

text \<open>
  The length a \<^verbatim>\<open>Content-Length\<close> header declares to the consumer: the number its
  decimal digits denote; a value that is not all digits declares none.
\<close>

definition declared_length :: "js_string \<Rightarrow> int option" where
  "declared_length v = (if v \<noteq> [] \<and> list_all is_digit v then Some (digits_value v) else None)"

subsection \<open>The session\<close>

text \<open>
  The log lines of a download: start (request id, requested string, total), end (request
  id, size, milliseconds), abort (request id) and error (message). An entry holds the
  values its line formats.
\<close>

datatype dl_log =
  DlStart string js_string int | DlEnd string int int | DlAbort string | DlError string

fun dl_terminal :: "dl_log \<Rightarrow> bool" where
  "dl_terminal (DlEnd rid sz ms) = True"
| "dl_terminal (DlAbort rid) = True"
| "dl_terminal (DlStart rid q t) = False"
| "dl_terminal (DlError m) = False"

text \<open>
  The variables the handler's closures share (\<open>remaining\<close>, \<open>total\<close>, \<open>start\<close>,
  \<open>reqId\<close>, \<open>ended\<close>) and what the handler does to the response: the status and
  the \<^verbatim>\<open>Content-Length\<close> header it sets, the lengths of the buffers it hands to
  \<^verbatim>\<open>res.write\<close> in order (their content is random filler),
  \<^verbatim>\<open>res.writableEnded\<close> (true once \<^verbatim>\<open>res.end()\<close> was called), the
  number of one-shot \<^verbatim>\<open>drain\<close> listeners registered, and the log.
\<close>

record download =
  reqId :: string
  total :: int
  start :: int
  remaining :: int
  ended :: bool
  statusCode :: int
  content_length :: js_string
  written :: "int list"
  writableEnded :: bool
  drain_listeners :: nat
  log :: "dl_log list"

definition endOnce :: "int \<Rightarrow> download \<Rightarrow> download" where
  "endOnce now s =
     (if ended s then s
      else s\<lparr>ended := True, log := log s @ [DlEnd (reqId s) (total s) (now - start s)]\<rparr>)"

definition abortOnce :: "download \<Rightarrow> download" where
  "abortOnce s =
     (if ended s then s
      else if remaining s \<le> 0 \<or> writableEnded s then s
      else s\<lparr>ended := True, log := log s @ [DlAbort (reqId s)]\<rparr>)"

text \<open>
  The \<^verbatim>\<open>while\<close> loop of \<^verbatim>\<open>writeMore\<close> and what follows it. The answer of
  the \<open>k\<close>-th call of \<^verbatim>\<open>res.write\<close> (counting from 0) is \<open>ok k\<close>: it
  is the consumer's, not the program's. On \<^verbatim>\<open>false\<close> the loop registers a one-shot
  \<^verbatim>\<open>drain\<close> listener and returns; when nothing remains it calls
  \<^verbatim>\<open>res.end()\<close> and \<^verbatim>\<open>endOnce()\<close>. The loop need not return: when the
  subtraction no longer lowers \<open>remaining\<close> and the consumer accepts every write, it
  runs forever, and the result is \<open>None\<close>.
\<close>

partial_function (option) writeLoop ::
  "(nat \<Rightarrow> bool) \<Rightarrow> int \<Rightarrow> download \<Rightarrow> download option" where
  "writeLoop ok now s =
     (if 0 < remaining s then
        (let len = min CHUNK (remaining s);
             k = length (written s);
             s1 = s\<lparr>remaining := double_sub (remaining s) len, written := written s @ [len]\<rparr>
         in if \<not> ok k then Some (s1\<lparr>drain_listeners := drain_listeners s1 + 1\<rparr>)
            else writeLoop ok now s1)
      else Some (endOnce now (s\<lparr>writableEnded := True\<rparr>)))"

definition writeMore :: "(nat \<Rightarrow> bool) \<Rightarrow> int \<Rightarrow> download \<Rightarrow> download option" where
  "writeMore ok now s = (if ended s then Some s else writeLoop ok now s)"

text \<open>
  The handler up to the first call of \<^verbatim>\<open>writeMore\<close>: the size is resolved, the
  start line is logged, status and headers are set. The platform calls of the handler are
  taken not to throw, so the \<^verbatim>\<open>catch\<close> branch, which answers 500 before any
  session exists, is not part of the model.
\<close>

definition download_open :: "config \<Rightarrow> js_string option \<Rightarrow> string \<Rightarrow> int \<Rightarrow> download" where
  "download_open cfg r rid now =
     (let size = download_size cfg r in
      \<lparr> reqId = rid, total = size, start = now, remaining = size, ended = False,
        statusCode = 200, content_length = js_String size, written = [], writableEnded = False,
        drain_listeners = 0, log = [DlStart rid (query_size r) size] \<rparr>)"

text \<open>
  The whole synchronous part of the handler: the session is opened at time \<open>t0\<close> and
  \<^verbatim>\<open>writeMore\<close> is called once; \<open>t1\<close> is the clock when that call ends.
\<close>

definition download_get ::
  "(nat \<Rightarrow> bool) \<Rightarrow> config \<Rightarrow> js_string option \<Rightarrow> string \<Rightarrow> int \<Rightarrow> int \<Rightarrow> download option" where
  "download_get ok cfg r rid t0 t1 = writeMore ok t1 (download_open cfg r rid t0)"

text \<open>
  The events the handler listens to: \<^verbatim>\<open>finish\<close>, \<^verbatim>\<open>close\<close>,
  \<^verbatim>\<open>error\<close> and \<^verbatim>\<open>drain\<close> of the response, \<^verbatim>\<open>aborted\<close> of the
  request. An event comes with the reading of the clock when its listener runs. A
  \<^verbatim>\<open>drain\<close> calls every one-shot listener registered so far, once, and removes it.
  A listener that does not return keeps the thread: the result is \<open>None\<close> and no later
  event is handled.
\<close>

datatype dl_event = Finish | Aborted | Close | Error string | Drain

primrec calls :: "nat \<Rightarrow> (download \<Rightarrow> download option) \<Rightarrow> download \<Rightarrow> download option" where
  "calls 0 f s = Some s"
| "calls (Suc n) f s = (case f s of None \<Rightarrow> None | Some s' \<Rightarrow> calls n f s')"

fun download_step :: "(nat \<Rightarrow> bool) \<Rightarrow> int \<times> dl_event \<Rightarrow> download \<Rightarrow> download option" where
  "download_step ok (now, Finish) s = Some (endOnce now s)"
| "download_step ok (now, Aborted) s = Some (abortOnce s)"
| "download_step ok (now, Close) s = Some (if 0 < remaining s then abortOnce s else s)"
| "download_step ok (now, Error msg) s = Some (abortOnce (s\<lparr>log := log s @ [DlError msg]\<rparr>))"
| "download_step ok (now, Drain) s =
     calls (drain_listeners s) (writeMore ok now) (s\<lparr>drain_listeners := 0\<rparr>)"

fun download_run ::
  "(nat \<Rightarrow> bool) \<Rightarrow> (int \<times> dl_event) list \<Rightarrow> download \<Rightarrow> download option" where
  "download_run ok [] s = Some s"
| "download_run ok (ev # es) s =
     (case download_step ok ev s of None \<Rightarrow> None | Some s' \<Rightarrow> download_run ok es s')"

text \<open>A request and the events that follow it.\<close>

definition download_trace ::
  "(nat \<Rightarrow> bool) \<Rightarrow> config \<Rightarrow> js_string option \<Rightarrow> string \<Rightarrow> int \<Rightarrow> int \<Rightarrow>
   (int \<times> dl_event) list \<Rightarrow> download option" where
  "download_trace ok cfg r rid t0 t1 es =
     (case download_get ok cfg r rid t0 t1 of None \<Rightarrow> None | Some s \<Rightarrow> download_run ok es s)"

definition terminal_lines :: "download \<Rightarrow> dl_log list" where
  "terminal_lines s = filter dl_terminal (log s)"

section \<open>The upload session of \<^verbatim>\<open>POST /upload\<close>\<close>

text \<open>A buffer is its bytes; \<^verbatim>\<open>chunk.length\<close> is the length of the list.\<close>

type_synonym buffer = "nat list"

text \<open>
  The bodies the handler sends: \<^verbatim>\<open>{bytes, millis}\<close>, \<^verbatim>\<open>{message, max}\<close>
  and \<^verbatim>\<open>{message}\<close>; a response is a status with a body.
\<close>

datatype body = BytesMillis int int | MessageMax string int | Message string

datatype up_log =
  UpStart string | UpAbort string | UpTooLarge string int int | UpEnd string int int | UpError string

fun up_terminal :: "up_log \<Rightarrow> bool" where
  "up_terminal (UpStart rid) = False"
| "up_terminal (UpAbort rid) = True"
| "up_terminal (UpTooLarge rid b ms) = True"
| "up_terminal (UpEnd rid b ms) = True"
| "up_terminal (UpError m) = True"

text \<open>
  The variables of the handler (\<open>start\<close>, \<open>bytes\<close>, \<open>reqId\<close>, \<open>finished\<close>),
  whether \<^verbatim>\<open>req.pause()\<close> and \<^verbatim>\<open>req.destroy()\<close> were called, the
  responses sent and the log.
\<close>

record upload =
  u_reqId :: string
  u_start :: int
  bytes :: int
  finished :: bool
  paused :: bool
  destroyed :: bool
  responses :: "(int \<times> body) list"
  u_log :: "up_log list"

definition finishOnce :: "(upload \<Rightarrow> upload) \<Rightarrow> upload \<Rightarrow> upload" where
  "finishOnce fn s = (if finished s then s else fn (s\<lparr>finished := True\<rparr>))"

definition on_aborted :: "upload \<Rightarrow> upload" where
  "on_aborted s = finishOnce (\<lambda>s. s\<lparr>u_log := u_log s @ [UpAbort (u_reqId s)]\<rparr>) s"

definition on_data :: "config \<Rightarrow> int \<Rightarrow> buffer \<Rightarrow> upload \<Rightarrow> upload" where
  "on_data cfg now chunk s =
     (let s1 = s\<lparr>bytes := bytes s + int (length chunk)\<rparr> in
      if MAX_UPLOAD cfg < bytes s1 then
        finishOnce
          (\<lambda>s. s\<lparr>u_log := u_log s @ [UpTooLarge (u_reqId s) (bytes s) (now - u_start s)],
                 responses := responses s @ [(413, MessageMax ''Payload too large'' (MAX_UPLOAD cfg))],
                 destroyed := True\<rparr>)
          (s1\<lparr>paused := True\<rparr>)
      else s1)"

definition on_end :: "int \<Rightarrow> upload \<Rightarrow> upload" where
  "on_end now s =
     finishOnce
       (\<lambda>s. s\<lparr>u_log := u_log s @ [UpEnd (u_reqId s) (bytes s) (now - u_start s)],
              responses := responses s @ [(200, BytesMillis (bytes s) (now - u_start s))]\<rparr>)
       s"

definition on_error :: "string \<Rightarrow> upload \<Rightarrow> upload" where
  "on_error err s =
     finishOnce
       (\<lambda>s. s\<lparr>u_log := u_log s @ [UpError err],
              responses := responses s @ [(500, Message ''Failed to receive upload'')]\<rparr>)
       s"

definition upload_open :: "string \<Rightarrow> int \<Rightarrow> upload" where
  "upload_open rid now =
     \<lparr> u_reqId = rid, u_start = now, bytes = 0, finished = False, paused = False,
       destroyed = False, responses = [], u_log = [UpStart rid] \<rparr>"

datatype up_event = UAborted | UData buffer | UEnd | UError string

text \<open>Calling the listener of an event, whatever the state of the request.\<close>

fun upload_dispatch :: "config \<Rightarrow> int \<times> up_event \<Rightarrow> upload \<Rightarrow> upload" where
  "upload_dispatch cfg (now, UAborted) s = on_aborted s"
| "upload_dispatch cfg (now, UData chunk) s = on_data cfg now chunk s"
| "upload_dispatch cfg (now, UEnd) s = on_end now s"
| "upload_dispatch cfg (now, UError err) s = on_error err s"

text \<open>
  The request as a readable stream: it emits \<^verbatim>\<open>data\<close> only while it is flowing and
  not destroyed, so a fragment that arrives after \<^verbatim>\<open>req.pause()\<close> or
  \<^verbatim>\<open>req.destroy()\<close> does not reach the listener (nothing in the handler resumes
  the request). The other events are not restricted.
\<close>

fun is_data :: "up_event \<Rightarrow> bool" where
  "is_data (UData chunk) = True"
| "is_data UAborted = False"
| "is_data UEnd = False"
| "is_data (UError err) = False"

definition upload_deliver :: "config \<Rightarrow> int \<times> up_event \<Rightarrow> upload \<Rightarrow> upload" where
  "upload_deliver cfg ev s =
     (if is_data (snd ev) \<and> (paused s \<or> destroyed s) then s else upload_dispatch cfg ev s)"

definition upload_run :: "config \<Rightarrow> (int \<times> up_event) list \<Rightarrow> upload \<Rightarrow> upload" where
  "upload_run cfg es s = fold (upload_deliver cfg) es s"

definition handlers_run :: "config \<Rightarrow> (int \<times> up_event) list \<Rightarrow> upload \<Rightarrow> upload" where
  "handlers_run cfg es s = fold (upload_dispatch cfg) es s"

definition outcome_lines :: "upload \<Rightarrow> up_log list" where
  "outcome_lines s = filter up_terminal (u_log s)"

section \<open>Invariants and auxiliary notions\<close>

subsection \<open>Download\<close>

text \<open>
  A number is a double when rounding leaves it as it is. The arithmetic of the write loop
  is exact as long as \<open>remaining\<close> is a double below \<open>2 ^ 69\<close>, or nothing remains.
\<close>

definition representable :: "int \<Rightarrow> bool" where
  "representable n \<longleftrightarrow> round_double n = n"

definition exact_range :: "download \<Rightarrow> bool" where
  "exact_range s \<longleftrightarrow>
     remaining s \<le> 0 \<or> (remaining s < 2 ^ 69 \<and> representable (remaining s))"

text \<open>
  Every buffer written has the length \<^verbatim>\<open>Math.min(CHUNK, remaining)\<close> had when
  it was generated, \<open>remaining\<close> being the total less what was written before it.
\<close>

definition chunks_ok :: "download \<Rightarrow> bool" where
  "chunks_ok s \<longleftrightarrow>
     (\<forall>i<length (written s). written s ! i = min CHUNK (total s - sum_list (take i (written s))))"

text \<open>
  The count of a session whose arithmetic is exact: the bytes written and the bytes
  remaining add up to the total, every chunk has its length, and the response is ended
  only when nothing remains.
\<close>

definition count_inv :: "download \<Rightarrow> bool" where
  "count_inv s \<longleftrightarrow>
     exact_range s \<and> 0 \<le> remaining s \<and>
     sum_list (written s) + remaining s = total s \<and>
     chunks_ok s \<and>
     (writableEnded s \<longrightarrow> remaining s = 0)"

text \<open>The abort lines of the log, and the condition under which \<^verbatim>\<open>abortOnce\<close>
  returns without effect.\<close>

fun is_abort :: "dl_log \<Rightarrow> bool" where
  "is_abort (DlAbort rid) = True"
| "is_abort (DlEnd rid sz ms) = False"
| "is_abort (DlStart rid q t) = False"
| "is_abort (DlError m) = False"

definition abort_lines :: "download \<Rightarrow> dl_log list" where
  "abort_lines s = filter is_abort (log s)"

definition all_generated :: "download \<Rightarrow> bool" where
  "all_generated s \<longleftrightarrow> remaining s \<le> 0 \<or> writableEnded s"




fun is_drain :: "dl_event \<Rightarrow> bool" where
  "is_drain Drain = True"
| "is_drain Finish = False"
| "is_drain Aborted = False"
| "is_drain Close = False"
| "is_drain (Error msg) = False"

definition drains :: "(int \<times> dl_event) list \<Rightarrow> nat" where
  "drains es = length (filter (\<lambda>ev. is_drain (snd ev)) es)"

definition refused :: "(nat \<Rightarrow> bool) \<Rightarrow> nat \<Rightarrow> nat" where
  "refused ok n = length (filter (\<lambda>i. \<not> ok i) [0..<n])"

definition drain_events :: "int list \<Rightarrow> (int \<times> dl_event) list" where
  "drain_events ts = map (\<lambda>t. (t, Drain)) ts"

text \<open>
  Flow control: at most one \<^verbatim>\<open>drain\<close> listener is registered, it is registered
  only while the last write stands refused, and the refused writes that were followed by
  another write number at most \<open>n\<close>.
\<close>

definition flow_inv :: "(nat \<Rightarrow> bool) \<Rightarrow> download \<Rightarrow> nat \<Rightarrow> bool" where
  "flow_inv ok s n \<longleftrightarrow>
     drain_listeners s \<le> 1 \<and>
     (drain_listeners s = 1 \<longrightarrow> written s \<noteq> [] \<and> \<not> ok (length (written s) - 1)) \<and>
     refused ok (length (written s) - 1) \<le> n"

subsection \<open>Upload\<close>

text \<open>
  The response that goes with each terminal log line of an upload, and the guard's
  guarantee: no terminal line and no response while the session is not finished, one
  terminal line with its matching response once it is.
\<close>

fun outcome_ok :: "config \<Rightarrow> up_log \<Rightarrow> (int \<times> body) list \<Rightarrow> bool" where
  "outcome_ok cfg (UpEnd rid b ms) rs = (rs = [(200, BytesMillis b ms)])"
| "outcome_ok cfg (UpTooLarge rid b ms) rs =
     (rs = [(413, MessageMax ''Payload too large'' (MAX_UPLOAD cfg))])"
| "outcome_ok cfg (UpAbort rid) rs = (rs = [])"
| "outcome_ok cfg (UpError m) rs = (rs = [(500, Message ''Failed to receive upload'')])"
| "outcome_ok cfg (UpStart rid) rs = False"

definition one_outcome :: "config \<Rightarrow> upload \<Rightarrow> bool" where
  "one_outcome cfg s =
     (case outcome_lines s of
        [] \<Rightarrow> \<not> finished s \<and> responses s = []
      | [l] \<Rightarrow> finished s \<and> outcome_ok cfg l (responses s)
      | _ \<Rightarrow> False)"

text \<open>The events whose listener goes to \<^verbatim>\<open>finishOnce\<close> unconditionally.\<close>

fun finalizes :: "up_event \<Rightarrow> bool" where
  "finalizes UAborted = True"
| "finalizes UEnd = True"
| "finalizes (UError err) = True"
| "finalizes (UData chunk) = False"

text \<open>
  The state the \<^verbatim>\<open>data\<close> listener leaves when the byte count \<open>b\<close> it has
  just reached is above the ceiling and the session was not finished.
\<close>

definition breach_state :: "config \<Rightarrow> int \<Rightarrow> int \<Rightarrow> upload \<Rightarrow> upload" where
  "breach_state cfg now b s =
     s\<lparr>bytes := b, paused := True, finished := True,
       u_log := u_log s @ [UpTooLarge (u_reqId s) b (now - u_start s)],
       responses := responses s @ [(413, MessageMax ''Payload too large'' (MAX_UPLOAD cfg))],
       destroyed := True\<rparr>"

text \<open>
  Fragments with the clock reading of their arrival, as \<^verbatim>\<open>data\<close> events, and the
  number of bytes they hold.
\<close>

definition data_events :: "(int \<times> buffer) list \<Rightarrow> (int \<times> up_event) list" where
  "data_events ds = map (\<lambda>d. (fst d, UData (snd d))) ds"

definition received :: "(int \<times> buffer) list \<Rightarrow> int" where
  "received ds = sum_list (map (\<lambda>d. int (length (snd d))) ds)"

text \<open>What holds of an upload session after any events: the guard's guarantee, and a byte
  count within the ceiling as long as the session is not finished.\<close>

definition up_inv :: "config \<Rightarrow> upload \<Rightarrow> bool" where
  "up_inv cfg s \<longleftrightarrow> one_outcome cfg s \<and> (\<not> finished s \<longrightarrow> bytes s \<le> MAX_UPLOAD cfg)"

section \<open>Sample inputs\<close>

text \<open>
  Environments: one that sets none of the three variables, one that sets
  \<^verbatim>\<open>DEFAULT_SIZE=200000000\<close> only, one that sets \<^verbatim>\<open>MAX_UPLOAD=10\<close> only,
  one that sets \<^verbatim>\<open>MAX_DOWNLOAD=18014398509481990\<close> only, one that sets
  \<^verbatim>\<open>MAX_DOWNLOAD=1180591620717411303424\<close> (\<open>2 ^ 70\<close>) only. Consumers: one that
  accepts every write, one that refuses every write, one that refuses the second write
  only. A download of 100000 bytes opened at time 0 whose first call of
  \<^verbatim>\<open>writeMore\<close> ends at time 2, followed by events, and three states of it: waiting
  for a drain after the first chunk, waiting for a drain after the last chunk, and completed.
  A download of 18014398509481992 bytes, the double that the digits
  \<^verbatim>\<open>18014398509481990\<close> parse to. A fresh upload, and a buffer of twelve bytes.
\<close>

definition no_env :: "string \<Rightarrow> js_string option" where
  "no_env name = None"

definition big_default_env :: "string \<Rightarrow> js_string option" where
  "big_default_env name = (if name = ''DEFAULT_SIZE'' then Some (ascii ''200000000'') else None)"

definition huge_download_env :: "string \<Rightarrow> js_string option" where
  "huge_download_env name =
     (if name = ''MAX_DOWNLOAD'' then Some (ascii ''18014398509481990'') else None)"

definition zetta_download_env :: "string \<Rightarrow> js_string option" where
  "zetta_download_env name =
     (if name = ''MAX_DOWNLOAD'' then Some (ascii ''1180591620717411303424'') else None)"

definition accept_all :: "nat \<Rightarrow> bool" where
  "accept_all k = True"

definition refuse_all :: "nat \<Rightarrow> bool" where
  "refuse_all k = False"

definition refuse_second :: "nat \<Rightarrow> bool" where
  "refuse_second k = (k \<noteq> 1)"

definition sample_trace :: "(nat \<Rightarrow> bool) \<Rightarrow> (int \<times> dl_event) list \<Rightarrow> download option" where
  "sample_trace ok es =
     download_trace ok (register_config no_env) (Some (ascii ''100000'')) ''r1'' 0 2 es"

definition sample_open :: download where
  "sample_open = download_open (register_config no_env) (Some (ascii ''100000'')) ''r1'' 0"

definition sample_pending :: download where
  "sample_pending =
     \<lparr> reqId = ''r1'', total = 100000, start = 0, remaining = 34464, ended = False,
       statusCode = 200, content_length = ascii ''100000'', written = [65536],
       writableEnded = False, drain_listeners = 1,
       log = [DlStart ''r1'' (ascii ''100000'') 100000] \<rparr>"

definition sample_generated :: download where
  "sample_generated =
     \<lparr> reqId = ''r1'', total = 100000, start = 0, remaining = 0, ended = False,
       statusCode = 200, content_length = ascii ''100000'', written = [65536, 34464],
       writableEnded = False, drain_listeners = 1,
       log = [DlStart ''r1'' (ascii ''100000'') 100000] \<rparr>"

definition sample_completed :: download where
  "sample_completed =
     \<lparr> reqId = ''r1'', total = 100000, start = 0, remaining = 0, ended = True,
       statusCode = 200, content_length = ascii ''100000'', written = [65536, 34464],
       writableEnded = True, drain_listeners = 0,
       log = [DlStart ''r1'' (ascii ''100000'') 100000, DlEnd ''r1'' 100000 2] \<rparr>"

definition huge_trace :: "(nat \<Rightarrow> bool) \<Rightarrow> (int \<times> dl_event) list \<Rightarrow> download option" where
  "huge_trace ok es =
     download_trace ok (register_config huge_download_env)
       (Some (ascii ''18014398509481990'')) ''r2'' 0 2 es"

definition small_upload_env :: "string \<Rightarrow> js_string option" where
  "small_upload_env name = (if name = ''MAX_UPLOAD'' then Some (ascii ''10'') else None)"

definition sample_upload :: upload where
  "sample_upload = upload_open ''u1'' 0"

definition twelve_bytes :: buffer where
  "twelve_bytes = [1, 2, 3, 4, 5, 6, 7, 8, 9, 10, 11, 12]"

section \<open>Properties of the size policy\<close>

lemma round53_small: "m < 2 ^ 53 \<Longrightarrow> round53 m = m"
  by (simp add: round53_def floorlog_le_iff)

lemma to_number_small: "\<bar>n\<bar> < 2 ^ 53 \<Longrightarrow> to_number n = Fin n"
proof -
  assume a: "\<bar>n\<bar> < 2 ^ 53"
  then have "nat \<bar>n\<bar> < 2 ^ 53" by (simp add: nat_less_iff)
  then have r: "round53 (nat \<bar>n\<bar>) = nat \<bar>n\<bar>" by (rule round53_small)
  have "(2::nat) ^ 53 < 2 ^ 1024" by simp
  with \<open>nat \<bar>n\<bar> < 2 ^ 53\<close> have "\<not> (2::nat) ^ 1024 \<le> nat \<bar>n\<bar>" by linarith
  with r show ?thesis by (simp add: to_number_def Let_def)
qed

lemma to_number_not_NaN [simp]: "to_number n \<noteq> NaN"
  by (simp add: to_number_def Let_def)

lemma envInt_pos: "0 < fb \<Longrightarrow> 0 < envInt raw fb"
  by (cases raw; cases "js_parseInt (the raw)") (auto simp: envInt_def Let_def)

lemma register_config_pos:
  "0 < DEFAULT_SIZE (register_config env)" "0 < MAX_DOWNLOAD (register_config env)"
  "0 < MAX_UPLOAD (register_config env)"
  by (simp_all add: register_config_def envInt_pos)

lemma download_size_bounds:
  "0 < DEFAULT_SIZE cfg \<Longrightarrow> 0 < MAX_DOWNLOAD cfg \<Longrightarrow>
   1 \<le> download_size cfg r \<and> download_size cfg r \<le> MAX_DOWNLOAD cfg"
  by (cases "js_parseInt (query_size r)") (auto simp: download_size_def Let_def)

lemma download_size_invalid:
  "\<not> isFinite (js_parseInt (query_size r)) \<or> le_zero (js_parseInt (query_size r)) \<Longrightarrow>
   download_size cfg r = min (DEFAULT_SIZE cfg) (MAX_DOWNLOAD cfg)"
  by (auto simp: download_size_def Let_def)

lemma download_size_valid:
  "js_parseInt (query_size r) = Fin k \<Longrightarrow> 0 < k \<Longrightarrow>
   download_size cfg r = min k (MAX_DOWNLOAD cfg)"
  by (auto simp: download_size_def Let_def)

lemma parseInt_empty [simp]: "js_parseInt [] = NaN"
  by (simp add: js_parseInt_def)




lemmas parse_eval = js_parseInt_def ascii_def is_white_def is_digit_def digits_value_def
  to_number_small Let_def

lemma register_config_no_env:
  "register_config no_env = \<lparr>DEFAULT_SIZE = 10485760, MAX_DOWNLOAD = 104857600, MAX_UPLOAD = 104857600\<rparr>"
  by (simp add: register_config_def no_env_def envInt_def)

lemma register_config_big_default_env:
  "register_config big_default_env =
     \<lparr>DEFAULT_SIZE = 200000000, MAX_DOWNLOAD = 104857600, MAX_UPLOAD = 104857600\<rparr>"
  by (simp add: register_config_def big_default_env_def envInt_def parse_eval)

text \<open>
  Claim C4, as amended. For every environment and every raw size request \<open>r\<close> (a
  query string, possibly absent) the resolved download size lies between 1 and
  \<open>MAX_DOWNLOAD\<close>. When \<open>r\<close> is absent, or parses to zero, to a negative
  number, to \<^verbatim>\<open>NaN\<close> or to an infinity, the size is \<open>DEFAULT_SIZE\<close>
  clamped to \<open>MAX_DOWNLOAD\<close>, that is, the smaller of the two. When \<open>r\<close>
  parses to a positive integer not above \<open>MAX_DOWNLOAD\<close> the size is that integer,
  and when it parses to a finite integer above \<open>MAX_DOWNLOAD\<close> the size is
  \<open>MAX_DOWNLOAD\<close>.
\<close>

theorem download_size_policy:
  "1 \<le> download_size (register_config env) r \<and>
   download_size (register_config env) r \<le> MAX_DOWNLOAD (register_config env) \<and>
   (r = None \<longrightarrow>
      download_size (register_config env) r =
        min (DEFAULT_SIZE (register_config env)) (MAX_DOWNLOAD (register_config env))) \<and>
   (\<not> isFinite (js_parseInt (query_size r)) \<or> le_zero (js_parseInt (query_size r)) \<longrightarrow>
      download_size (register_config env) r =
        min (DEFAULT_SIZE (register_config env)) (MAX_DOWNLOAD (register_config env))) \<and>
   (\<forall>k. js_parseInt (query_size r) = Fin k \<and> 0 < k \<and> k \<le> MAX_DOWNLOAD (register_config env) \<longrightarrow>
      download_size (register_config env) r = k) \<and>
   (\<forall>k. js_parseInt (query_size r) = Fin k \<and> MAX_DOWNLOAD (register_config env) < k \<longrightarrow>
      download_size (register_config env) r = MAX_DOWNLOAD (register_config env))"
proof -
  let ?cfg = "register_config env"
  have pos: "0 < DEFAULT_SIZE ?cfg" "0 < MAX_DOWNLOAD ?cfg"
    by (rule register_config_pos)+
  have b: "1 \<le> download_size ?cfg r \<and> download_size ?cfg r \<le> MAX_DOWNLOAD ?cfg"
    using pos by (rule download_size_bounds)
  have absent: "r = None \<longrightarrow> download_size ?cfg r = min (DEFAULT_SIZE ?cfg) (MAX_DOWNLOAD ?cfg)"
    by (simp add: download_size_invalid query_size_def)
  have inv: "\<not> isFinite (js_parseInt (query_size r)) \<or> le_zero (js_parseInt (query_size r)) \<longrightarrow>
      download_size ?cfg r = min (DEFAULT_SIZE ?cfg) (MAX_DOWNLOAD ?cfg)"
    using download_size_invalid by blast
  have val: "\<forall>k. js_parseInt (query_size r) = Fin k \<and> 0 < k \<and> k \<le> MAX_DOWNLOAD ?cfg \<longrightarrow>
      download_size ?cfg r = k"
    by (simp add: download_size_valid)
  have big: "\<forall>k. js_parseInt (query_size r) = Fin k \<and> MAX_DOWNLOAD ?cfg < k \<longrightarrow>
      download_size ?cfg r = MAX_DOWNLOAD ?cfg"
    using pos(2) by (auto simp: download_size_valid)
  from b absent inv val big show ?thesis by blast
qed

theorem download_size_policy_witness:
  "download_size (register_config no_env) None = 10485760 \<and>
   download_size (register_config no_env) (Some (ascii ''0'')) = 10485760 \<and>
   download_size (register_config no_env) (Some (ascii ''-5'')) = 10485760 \<and>
   download_size (register_config no_env) (Some (ascii ''abc'')) = 10485760 \<and>
   download_size (register_config no_env) (Some (ascii ''5000'')) = 5000 \<and>
   download_size (register_config no_env) (Some (ascii ''999999999'')) = 104857600"
proof -
  have p0: "js_parseInt (query_size (Some (ascii ''0''))) = Fin 0"
    by (simp add: query_size_def parse_eval)
  have p1: "js_parseInt (query_size (Some (ascii ''-5''))) = Fin (- 5)"
    by (simp add: query_size_def parse_eval)
  have p2: "js_parseInt (query_size (Some (ascii ''abc''))) = NaN"
    by (simp add: query_size_def parse_eval)
  have p3: "js_parseInt (query_size (Some (ascii ''5000''))) = Fin 5000"
    by (simp add: query_size_def parse_eval)
  have p4: "js_parseInt (query_size (Some (ascii ''999999999''))) = Fin 999999999"
    by (simp add: query_size_def parse_eval)
  show ?thesis
    using download_size_policy [of no_env None]
      download_size_policy [of no_env "Some (ascii ''0'')"]
      download_size_policy [of no_env "Some (ascii ''-5'')"]
      download_size_policy [of no_env "Some (ascii ''abc'')"]
      download_size_policy [of no_env "Some (ascii ''5000'')"]
      download_size_policy [of no_env "Some (ascii ''999999999'')"]
    by (simp add: p0 p1 p2 p3 p4 register_config_no_env)
qed

text \<open>
  The size is not always \<open>DEFAULT_SIZE\<close> for an absent request: with
  \<^verbatim>\<open>DEFAULT_SIZE=200000000\<close> in the environment and the built-in
  \<open>MAX_DOWNLOAD\<close> of 100 MiB, the default itself is clamped.
\<close>

theorem download_size_default_counterexample:
  "DEFAULT_SIZE (register_config big_default_env) = 200000000 \<and>
   download_size (register_config big_default_env) None = 104857600"
  by (simp add: register_config_big_default_env download_size_def query_size_def)



section \<open>Properties of the download session\<close>

subsection \<open>Doubles\<close>

lemma round_double_small: "0 \<le> n \<Longrightarrow> n < 2 ^ 53 \<Longrightarrow> round_double n = n"
proof -
  assume a: "0 \<le> n" "n < 2 ^ 53"
  then have "nat n < 2 ^ 53" by (simp add: nat_less_iff)
  then have "round53 (nat n) = nat n" by (rule round53_small)
  then show ?thesis using a by (simp add: round_double_def)
qed

lemma round53_dvd: "2 ^ (floorlog 2 m - 53) dvd m \<Longrightarrow> round53 m = m"
proof (cases "floorlog 2 m \<le> 53")
  case True
  then show ?thesis by (simp add: round53_def)
next
  case False
  assume d: "2 ^ (floorlog 2 m - 53) dvd m"
  let ?sh = "floorlog 2 m - 53"
  have r: "m mod 2 ^ ?sh = 0" using d by (simp add: mod_eq_0_iff_dvd)
  have h: "(0::nat) < 2 ^ (?sh - 1)" by simp
  have q: "m div 2 ^ ?sh * 2 ^ ?sh = m" using d by (rule dvd_div_mult_self)
  show ?thesis
    using False r h q by (simp add: round53_def Let_def)
qed

lemma round53_fixed_dvd: "round53 m = m \<Longrightarrow> 2 ^ (floorlog 2 m - 53) dvd m"
proof (cases "floorlog 2 m \<le> 53")
  case True
  then show ?thesis by simp
next
  case False
  assume f: "round53 m = m"
  let ?sh = "floorlog 2 m - 53"
  from f False obtain q where "q * 2 ^ ?sh = m"
    by (auto simp: round53_def Let_def split: if_splits)
  then show ?thesis by (metis dvd_triv_right)
qed

lemma representable_small: "0 \<le> n \<Longrightarrow> n < 2 ^ 53 \<Longrightarrow> representable n"
  by (simp add: representable_def round_double_small)

lemma representable_sub_chunk:
  assumes "representable a" and "CHUNK \<le> a" and "a < 2 ^ 69"
  shows "representable (a - CHUNK)"
proof -
  let ?m = "nat a"
  let ?m' = "nat (a - CHUNK)"
  have a0: "0 \<le> a" using assms(2) by (simp add: CHUNK_def)
  have fx: "round53 ?m = ?m"
    using assms(1) a0 by (simp add: representable_def round_double_def)
  have m': "?m' = ?m - 2 ^ 16" using assms(2) by (simp add: CHUNK_def nat_diff_distrib)
  have ge: "2 ^ 16 \<le> ?m" using assms(2) by (simp add: CHUNK_def le_nat_iff)
  have "?m < 2 ^ 69" using assms(3) a0 by (simp add: nat_less_iff)
  then have e: "floorlog 2 ?m \<le> 69" by (simp add: floorlog_le_iff)
  have e': "floorlog 2 ?m' \<le> floorlog 2 ?m" by (rule floorlog_mono) (simp add: m')
  have d1: "2 ^ (floorlog 2 ?m - 53) dvd ?m" using fx by (rule round53_fixed_dvd)
  have d2: "(2::nat) ^ (floorlog 2 ?m - 53) dvd 2 ^ 16"
    using e by (intro le_imp_power_dvd) simp
  have "2 ^ (floorlog 2 ?m - 53) dvd ?m - 2 ^ 16" using d1 d2 by (rule dvd_diff_nat)
  moreover have "(2::nat) ^ (floorlog 2 ?m' - 53) dvd 2 ^ (floorlog 2 ?m - 53)"
    using e' by (intro le_imp_power_dvd) simp
  ultimately have "2 ^ (floorlog 2 ?m' - 53) dvd ?m'" unfolding m' by (rule dvd_trans [rotated])
  then have "round53 ?m' = ?m'" by (rule round53_dvd)
  moreover have "0 \<le> a - CHUNK" using assms(2) by simp
  ultimately show ?thesis by (simp add: representable_def round_double_def)
qed

lemma representable_0: "representable 0"
  by (simp add: representable_small)

text \<open>One subtraction of the loop is exact in the exact range.\<close>

lemma double_sub_exact:
  assumes "representable a" and "0 < a" and "a < 2 ^ 69"
  shows "double_sub a (min CHUNK a) = a - min CHUNK a"
    and "representable (a - min CHUNK a)"
proof -
  have r: "representable (a - min CHUNK a)"
  proof (cases "CHUNK \<le> a")
    case True
    then show ?thesis using assms representable_sub_chunk by (simp add: min_def)
  next
    case False
    then show ?thesis by (simp add: min_def representable_0)
  qed
  then show "representable (a - min CHUNK a)" .
  from r show "double_sub a (min CHUNK a) = a - min CHUNK a"
    by (simp add: double_sub_def representable_def)
qed

subsection \<open>What a call of the write loop returns\<close>

lemma refused_Suc: "refused ok (Suc n) = refused ok n + (if ok n then 0 else 1)"
  by (simp add: refused_def)

lemma refused_mono: "m \<le> n \<Longrightarrow> refused ok m \<le> refused ok n"
proof (induction n)
  case 0
  then show ?case by simp
next
  case (Suc n)
  then show ?case by (cases "m = Suc n") (auto simp: refused_Suc)
qed

lemma refused_pred: "refused ok n \<le> refused ok (n - 1) + 1"
  by (cases n) (simp_all add: refused_Suc)

lemma writeLoop_end: "\<not> 0 < remaining s \<Longrightarrow>
    writeLoop ok now s = Some (endOnce now (s\<lparr>writableEnded := True\<rparr>))"
  by (subst writeLoop.simps) simp

lemma writeLoop_refused: "0 < remaining s \<Longrightarrow> \<not> ok (length (written s)) \<Longrightarrow>
    writeLoop ok now s =
      Some (s\<lparr>remaining := double_sub (remaining s) (min CHUNK (remaining s)),
               written := written s @ [min CHUNK (remaining s)],
               drain_listeners := drain_listeners s + 1\<rparr>)"
  by (subst writeLoop.simps) (simp add: Let_def)

lemma writeLoop_accepted: "0 < remaining s \<Longrightarrow> ok (length (written s)) \<Longrightarrow>
    writeLoop ok now s =
      writeLoop ok now
        (s\<lparr>remaining := double_sub (remaining s) (min CHUNK (remaining s)),
           written := written s @ [min CHUNK (remaining s)]\<rparr>)"
  by (subst writeLoop.simps) (simp add: Let_def)

text \<open>
  Induction over the calls that return: the three ways through one round of the loop.
\<close>

lemma writeLoop_induct [consumes 1, case_names finished refused accepted]:
  assumes r: "writeLoop ok now s = Some s'"
    and d: "\<And>ok now s. \<not> 0 < remaining s \<Longrightarrow>
          P ok now s (endOnce now (s\<lparr>writableEnded := True\<rparr>))"
    and f: "\<And>ok now s. 0 < remaining s \<Longrightarrow> \<not> ok (length (written s)) \<Longrightarrow>
          P ok now s (s\<lparr>remaining := double_sub (remaining s) (min CHUNK (remaining s)),
                  written := written s @ [min CHUNK (remaining s)],
                  drain_listeners := drain_listeners s + 1\<rparr>)"
    and a: "\<And>ok now s s'. 0 < remaining s \<Longrightarrow> ok (length (written s)) \<Longrightarrow>
          P ok now (s\<lparr>remaining := double_sub (remaining s) (min CHUNK (remaining s)),
                written := written s @ [min CHUNK (remaining s)]\<rparr>) s' \<Longrightarrow> P ok now s s'"
  shows "P ok now s s'"
proof (rule writeLoop.raw_induct [where P = P, OF _ r])
  fix wl :: "(nat \<Rightarrow> bool) \<Rightarrow> int \<Rightarrow> download \<Rightarrow> download option"
  fix ok now s s'
  assume ih: "\<And>ok now s y. wl ok now s = Some y \<Longrightarrow> P ok now s y"
  assume e: "(if 0 < remaining s then
      (let len = min CHUNK (remaining s); k = length (written s);
           s1 = s\<lparr>remaining := double_sub (remaining s) len, written := written s @ [len]\<rparr>
       in if \<not> ok k then Some (s1\<lparr>drain_listeners := drain_listeners s1 + 1\<rparr>)
          else wl ok now s1)
      else Some (endOnce now (s\<lparr>writableEnded := True\<rparr>))) = Some s'"
  show "P ok now s s'"
  proof (cases "0 < remaining s")
    case False
    with e have "s' = endOnce now (s\<lparr>writableEnded := True\<rparr>)" by simp
    with d [where s = s and now = now and ok = ok, OF False] show ?thesis by simp
  next
    case True
    show ?thesis
    proof (cases "ok (length (written s))")
      case False
      with True e
      have "s' = s\<lparr>remaining := double_sub (remaining s) (min CHUNK (remaining s)),
              written := written s @ [min CHUNK (remaining s)],
              drain_listeners := drain_listeners s + 1\<rparr>"
        by (simp add: Let_def)
      with f [where s = s and now = now and ok = ok, OF True False] show ?thesis by simp
    next
      case k: True
      let ?s1 = "s\<lparr>remaining := double_sub (remaining s) (min CHUNK (remaining s)),
            written := written s @ [min CHUNK (remaining s)]\<rparr>"
      from True k e have "wl ok now ?s1 = Some s'" by (simp add: Let_def)
      from ih [OF this] have "P ok now ?s1 s'" .
      with a [where s = s and now = now and ok = ok and s' = s', OF True k] show ?thesis by simp
    qed
  qed
qed

lemma writeLoop_static:
  assumes "writeLoop ok now s = Some s'"
  shows "reqId s' = reqId s \<and> total s' = total s \<and> start s' = start s \<and>
         content_length s' = content_length s \<and> statusCode s' = statusCode s"
  using assms by (induction rule: writeLoop_induct) (simp_all add: endOnce_def)

lemma writeLoop_written:
  assumes "writeLoop ok now s = Some s'"
  shows "length (written s) \<le> length (written s') \<and>
         (\<forall>i. length (written s) \<le> i \<and> Suc i < length (written s') \<longrightarrow> ok i) \<and>
         refused ok (length (written s') - 1) \<le> refused ok (length (written s))"
  using assms
proof (induction rule: writeLoop_induct)
  case (finished ok now s)
  have "written (endOnce now (s\<lparr>writableEnded := True\<rparr>)) = written s"
    by (simp add: endOnce_def)
  then show ?case by (auto simp: refused_mono)
next
  case (refused ok now s)
  then show ?case by auto
next
  case (accepted ok now s s')
  let ?n = "length (written s)"
  from accepted.IH have ih: "Suc ?n \<le> length (written s')"
    "\<forall>i. Suc ?n \<le> i \<and> Suc i < length (written s') \<longrightarrow> ok i"
    "refused ok (length (written s') - 1) \<le> refused ok (Suc ?n)"
    by simp_all
  have a: "\<forall>i. ?n \<le> i \<and> Suc i < length (written s') \<longrightarrow> ok i"
  proof (intro allI impI)
    fix i
    assume h: "?n \<le> i \<and> Suc i < length (written s')"
    show "ok i"
    proof (cases "i = ?n")
      case True
      then show ?thesis using accepted.hyps(2) by simp
    next
      case False
      with h have "Suc ?n \<le> i" by simp
      with ih(2) h show ?thesis by blast
    qed
  qed
  have b: "refused ok (length (written s') - 1) \<le> refused ok ?n"
    using ih(3) accepted.hyps(2) by (simp add: refused_Suc)
  from ih(1) a b show ?case by simp
qed

text \<open>
  A call that returns has either left one more listener, with its last write refused and
  the guard untouched, or ended the response and passed through \<^verbatim>\<open>endOnce\<close>.
\<close>

lemma writeLoop_outcome:
  assumes "writeLoop ok now s = Some s'"
  shows "(writableEnded s' = writableEnded s \<and> ended s' = ended s \<and> log s' = log s \<and>
          drain_listeners s' = drain_listeners s + 1 \<and> 0 < remaining s \<and>
          written s' \<noteq> [] \<and> \<not> ok (length (written s') - 1))
         \<or>
         (writableEnded s' \<and> ended s' \<and> drain_listeners s' = drain_listeners s \<and>
          remaining s' \<le> 0 \<and>
          log s' = (if ended s then log s
                    else log s @ [DlEnd (reqId s) (total s) (now - start s)]))"
  using assms
proof (induction rule: writeLoop_induct)
  case (finished ok now s)
  then show ?case by (simp add: endOnce_def)
next
  case (refused ok now s)
  then show ?case by simp
next
  case (accepted ok now s s')
  from accepted.IH show ?case
  proof
    assume "writableEnded s' =
      writableEnded (s\<lparr>remaining := double_sub (remaining s) (min CHUNK (remaining s)),
                        written := written s @ [min CHUNK (remaining s)]\<rparr>) \<and>
      ended s' = ended (s\<lparr>remaining := double_sub (remaining s) (min CHUNK (remaining s)),
                        written := written s @ [min CHUNK (remaining s)]\<rparr>) \<and>
      log s' = log (s\<lparr>remaining := double_sub (remaining s) (min CHUNK (remaining s)),
                        written := written s @ [min CHUNK (remaining s)]\<rparr>) \<and>
      drain_listeners s' =
        drain_listeners (s\<lparr>remaining := double_sub (remaining s) (min CHUNK (remaining s)),
                        written := written s @ [min CHUNK (remaining s)]\<rparr>) + 1 \<and>
      0 < remaining (s\<lparr>remaining := double_sub (remaining s) (min CHUNK (remaining s)),
                        written := written s @ [min CHUNK (remaining s)]\<rparr>) \<and>
      written s' \<noteq> [] \<and> \<not> ok (length (written s') - 1)"
    then have "writableEnded s' = writableEnded s \<and> ended s' = ended s \<and> log s' = log s \<and>
          drain_listeners s' = drain_listeners s + 1 \<and> 0 < remaining s \<and>
          written s' \<noteq> [] \<and> \<not> ok (length (written s') - 1)"
      using accepted.hyps(1) by simp
    then show ?thesis by (rule disjI1)
  next
    assume "writableEnded s' \<and> ended s' \<and>
      drain_listeners s' =
        drain_listeners (s\<lparr>remaining := double_sub (remaining s) (min CHUNK (remaining s)),
                        written := written s @ [min CHUNK (remaining s)]\<rparr>) \<and>
      remaining s' \<le> 0 \<and>
      log s' =
        (if ended (s\<lparr>remaining := double_sub (remaining s) (min CHUNK (remaining s)),
                        written := written s @ [min CHUNK (remaining s)]\<rparr>)
         then log (s\<lparr>remaining := double_sub (remaining s) (min CHUNK (remaining s)),
                        written := written s @ [min CHUNK (remaining s)]\<rparr>)
         else log (s\<lparr>remaining := double_sub (remaining s) (min CHUNK (remaining s)),
                        written := written s @ [min CHUNK (remaining s)]\<rparr>) @
              [DlEnd (reqId (s\<lparr>remaining := double_sub (remaining s) (min CHUNK (remaining s)),
                        written := written s @ [min CHUNK (remaining s)]\<rparr>))
                 (total (s\<lparr>remaining := double_sub (remaining s) (min CHUNK (remaining s)),
                        written := written s @ [min CHUNK (remaining s)]\<rparr>))
                 (now - start (s\<lparr>remaining := double_sub (remaining s) (min CHUNK (remaining s)),
                        written := written s @ [min CHUNK (remaining s)]\<rparr>))])"
    then have "writableEnded s' \<and> ended s' \<and> drain_listeners s' = drain_listeners s \<and>
          remaining s' \<le> 0 \<and>
          log s' = (if ended s then log s
                    else log s @ [DlEnd (reqId s) (total s) (now - start s)])"
      by simp
    then show ?thesis by (rule disjI2)
  qed
qed

subsection \<open>The two guards field by field\<close>

text \<open>What \<^verbatim>\<open>endOnce\<close> and \<^verbatim>\<open>abortOnce\<close> leave unchanged, and the terminal lines they add.\<close>

lemma endOnce_simps [simp]:
  "remaining (endOnce now s) = remaining s"
  "total (endOnce now s) = total s"
  "reqId (endOnce now s) = reqId s"
  "start (endOnce now s) = start s"
  "written (endOnce now s) = written s"
  "writableEnded (endOnce now s) = writableEnded s"
  "drain_listeners (endOnce now s) = drain_listeners s"
  "content_length (endOnce now s) = content_length s"
  "statusCode (endOnce now s) = statusCode s"
  "ended (endOnce now s)"
  by (simp_all add: endOnce_def)

lemma abortOnce_simps [simp]:
  "remaining (abortOnce s) = remaining s"
  "total (abortOnce s) = total s"
  "reqId (abortOnce s) = reqId s"
  "start (abortOnce s) = start s"
  "written (abortOnce s) = written s"
  "writableEnded (abortOnce s) = writableEnded s"
  "drain_listeners (abortOnce s) = drain_listeners s"
  "content_length (abortOnce s) = content_length s"
  "statusCode (abortOnce s) = statusCode s"
  by (simp_all add: abortOnce_def)

lemma terminal_lines_endOnce:
  "terminal_lines (endOnce now s) =
     (if ended s then terminal_lines s
      else terminal_lines s @ [DlEnd (reqId s) (total s) (now - start s)])"
  by (simp add: endOnce_def terminal_lines_def)




lemma terminal_lines_update [simp]:
  "terminal_lines (s\<lparr>writableEnded := w\<rparr>) = terminal_lines s"
  "terminal_lines (s\<lparr>drain_listeners := d\<rparr>) = terminal_lines s"
  "terminal_lines (s\<lparr>remaining := r\<rparr>) = terminal_lines s"
  "terminal_lines (s\<lparr>written := ws\<rparr>) = terminal_lines s"
  "terminal_lines (s\<lparr>log := l\<rparr>) = filter dl_terminal l"
  by (simp_all add: terminal_lines_def)

lemma abort_lines_update [simp]:
  "abort_lines (s\<lparr>writableEnded := w\<rparr>) = abort_lines s"
  "abort_lines (s\<lparr>drain_listeners := d\<rparr>) = abort_lines s"
  "abort_lines (s\<lparr>remaining := r\<rparr>) = abort_lines s"
  "abort_lines (s\<lparr>written := ws\<rparr>) = abort_lines s"
  "abort_lines (s\<lparr>log := l\<rparr>) = filter is_abort l"
  by (simp_all add: abort_lines_def)

lemma abort_lines_endOnce [simp]: "abort_lines (endOnce now s) = abort_lines s"
  by (simp add: endOnce_def abort_lines_def)

lemma chunks_ok_update [simp]:
  "chunks_ok (s\<lparr>writableEnded := w\<rparr>) = chunks_ok s"
  "chunks_ok (s\<lparr>drain_listeners := d\<rparr>) = chunks_ok s"
  "chunks_ok (s\<lparr>remaining := r\<rparr>) = chunks_ok s"
  "chunks_ok (s\<lparr>ended := e\<rparr>) = chunks_ok s"
  "chunks_ok (s\<lparr>log := l\<rparr>) = chunks_ok s"
  by (simp_all add: chunks_ok_def)

lemma chunks_ok_endOnce [simp]: "chunks_ok (endOnce now s) = chunks_ok s"
  by (simp add: chunks_ok_def)

lemma chunks_ok_abortOnce [simp]: "chunks_ok (abortOnce s) = chunks_ok s"
  by (simp add: chunks_ok_def)



subsection \<open>Calls, steps and runs\<close>

text \<open>
  A property every listener preserves is preserved by every event and every trace; the
  same for a property under which every listener returns.
\<close>

lemma calls_preserves:
  assumes "\<And>s s'. P s \<Longrightarrow> f s = Some s' \<Longrightarrow> P s'"
  shows "P s \<Longrightarrow> calls n f s = Some s' \<Longrightarrow> P s'"
proof (induction n arbitrary: s)
  case 0
  then show ?case by simp
next
  case (Suc n)
  from Suc.prems(2) obtain s1 where a: "f s = Some s1" and b: "calls n f s1 = Some s'"
    by (auto split: option.splits)
  from assms [OF Suc.prems(1) a] have "P s1" .
  from Suc.IH [OF this b] show ?case .
qed

lemma calls_returns:
  assumes "\<And>s. P s \<Longrightarrow> \<exists>s'. f s = Some s' \<and> P s'"
  shows "P s \<Longrightarrow> \<exists>s'. calls n f s = Some s' \<and> P s'"
proof (induction n arbitrary: s)
  case 0
  then show ?case by simp
next
  case (Suc n)
  from assms [OF Suc.prems] obtain s1 where a: "f s = Some s1" and p: "P s1" by blast
  from Suc.IH [OF p] obtain s' where "calls n f s1 = Some s'" "P s'" by blast
  with a show ?case by simp
qed

lemma step_preserves:
  assumes e: "\<And>now s. P s \<Longrightarrow> P (endOnce now s)"
    and a: "\<And>s. P s \<Longrightarrow> P (abortOnce s)"
    and l: "\<And>s msg. P s \<Longrightarrow> P (s\<lparr>log := log s @ [DlError msg]\<rparr>)"
    and d: "\<And>s. P s \<Longrightarrow> P (s\<lparr>drain_listeners := 0\<rparr>)"
    and w: "\<And>now s s'. P s \<Longrightarrow> writeMore ok now s = Some s' \<Longrightarrow> P s'"
  shows "P s \<Longrightarrow> download_step ok ev s = Some s' \<Longrightarrow> P s'"
proof -
  assume p: "P s" and st: "download_step ok ev s = Some s'"
  obtain now ev' where ev: "ev = (now, ev')" by (cases ev)
  show "P s'"
  proof (cases ev')
    case Finish
    with st ev have "s' = endOnce now s" by simp
    with e [OF p] show ?thesis by simp
  next
    case Aborted
    with st ev have "s' = abortOnce s" by simp
    with a [OF p] show ?thesis by simp
  next
    case Close
    with st ev have "s' = abortOnce s \<or> s' = s" by (auto split: if_splits)
    with a [OF p] p show ?thesis by auto
  next
    case (Error msg)
    with st ev have "s' = abortOnce (s\<lparr>log := log s @ [DlError msg]\<rparr>)" by simp
    with a [OF l [OF p]] show ?thesis by simp
  next
    case Drain
    with st ev
    have c: "calls (drain_listeners s) (writeMore ok now) (s\<lparr>drain_listeners := 0\<rparr>) = Some s'"
      by simp
    show ?thesis
      by (rule calls_preserves [where P = P, OF _ d [OF p] c]) (rule w)
  qed
qed

lemma step_returns:
  assumes e: "\<And>now s. P s \<Longrightarrow> P (endOnce now s)"
    and a: "\<And>s. P s \<Longrightarrow> P (abortOnce s)"
    and l: "\<And>s msg. P s \<Longrightarrow> P (s\<lparr>log := log s @ [DlError msg]\<rparr>)"
    and d: "\<And>s. P s \<Longrightarrow> P (s\<lparr>drain_listeners := 0\<rparr>)"
    and w: "\<And>now s. P s \<Longrightarrow> \<exists>s'. writeMore ok now s = Some s' \<and> P s'"
  shows "P s \<Longrightarrow> \<exists>s'. download_step ok ev s = Some s' \<and> P s'"
proof -
  assume p: "P s"
  obtain now ev' where ev: "ev = (now, ev')" by (cases ev)
  show "\<exists>s'. download_step ok ev s = Some s' \<and> P s'"
  proof (cases ev')
    case Finish
    with e [OF p] ev show ?thesis by simp
  next
    case Aborted
    with a [OF p] ev show ?thesis by simp
  next
    case Close
    with a [OF p] p ev show ?thesis by simp
  next
    case (Error msg)
    with a [OF l [OF p]] ev show ?thesis by simp
  next
    case Drain
    have "\<exists>s'. calls (drain_listeners s) (writeMore ok now) (s\<lparr>drain_listeners := 0\<rparr>) = Some s'
            \<and> P s'"
      by (rule calls_returns [where P = P, OF _ d [OF p]]) (rule w)
    with Drain ev show ?thesis by simp
  qed
qed

lemma run_preserves:
  assumes "\<And>ev s s'. P s \<Longrightarrow> download_step ok ev s = Some s' \<Longrightarrow> P s'"
  shows "P s \<Longrightarrow> download_run ok es s = Some s' \<Longrightarrow> P s'"
proof (induction es arbitrary: s)
  case Nil
  then show ?case by simp
next
  case (Cons ev es)
  from Cons.prems(2) obtain s1 where a: "download_step ok ev s = Some s1"
    and b: "download_run ok es s1 = Some s'"
    by (auto split: option.splits)
  from assms [OF Cons.prems(1) a] have "P s1" .
  from Cons.IH [OF this b] show ?case .
qed

lemma run_returns:
  assumes "\<And>ev s. P s \<Longrightarrow> \<exists>s'. download_step ok ev s = Some s' \<and> P s'"
  shows "P s \<Longrightarrow> \<exists>s'. download_run ok es s = Some s' \<and> P s'"
proof (induction es arbitrary: s)
  case Nil
  then show ?case by simp
next
  case (Cons ev es)
  from assms [OF Cons.prems] obtain s1 where a: "download_step ok ev s = Some s1" and p: "P s1"
    by blast
  from Cons.IH [OF p] obtain s' where "download_run ok es s1 = Some s'" "P s'" by blast
  with a show ?case by simp
qed

lemma run_append:
  "download_run ok (es @ es') s =
     (case download_run ok es s of None \<Rightarrow> None | Some s' \<Rightarrow> download_run ok es' s')"
  by (induction es arbitrary: s) (simp_all split: option.splits)

subsection \<open>What a call of \<^verbatim>\<open>writeMore\<close> returns\<close>


lemma writeMore_outcome:
  assumes "writeMore ok now s = Some s'"
  shows "(ended s \<and> s' = s)
         \<or>
         (\<not> ended s \<and> writableEnded s' = writableEnded s \<and> \<not> ended s' \<and> log s' = log s \<and>
          drain_listeners s' = drain_listeners s + 1 \<and> 0 < remaining s \<and>
          written s' \<noteq> [] \<and> \<not> ok (length (written s') - 1))
         \<or>
         (\<not> ended s \<and> writableEnded s' \<and> ended s' \<and> drain_listeners s' = drain_listeners s \<and>
          remaining s' \<le> 0 \<and>
          log s' = log s @ [DlEnd (reqId s) (total s) (now - start s)])"
proof (cases "ended s")
  case True
  with assms show ?thesis by (simp add: writeMore_def)
next
  case False
  with assms have "writeLoop ok now s = Some s'" by (simp add: writeMore_def)
  from writeLoop_outcome [OF this] False show ?thesis by auto
qed

lemma writeMore_static:
  assumes "writeMore ok now s = Some s'"
  shows "reqId s' = reqId s \<and> total s' = total s \<and> start s' = start s \<and>
         content_length s' = content_length s \<and> statusCode s' = statusCode s"
proof (cases "ended s")
  case True
  with assms show ?thesis by (simp add: writeMore_def)
next
  case False
  with assms have "writeLoop ok now s = Some s'" by (simp add: writeMore_def)
  then show ?thesis by (rule writeLoop_static)
qed

subsection \<open>The terminal guard\<close>










subsection \<open>After the end\<close>




subsection \<open>No abort once everything is generated\<close>

text \<open>
  With nothing remaining or the response ended, \<^verbatim>\<open>abortOnce\<close> does nothing, and
  the condition is stable: no event adds an abort line.
\<close>

lemma abortOnce_all_generated: "all_generated s \<Longrightarrow> abortOnce s = s"
  by (auto simp: abortOnce_def all_generated_def)

lemma all_generated_writeMore:
  assumes g: "all_generated s \<and> abort_lines s = A" and w: "writeMore ok now s = Some s'"
  shows "all_generated s' \<and> abort_lines s' = A"
proof -
  from writeMore_outcome [OF w]
  consider (idle) "s' = s"
    | (pending) "writableEnded s' = writableEnded s" "log s' = log s" "0 < remaining s"
    | (completed) "writableEnded s'"
        "log s' = log s @ [DlEnd (reqId s) (total s) (now - start s)]"
    by blast
  then show ?thesis
  proof cases
    case idle
    with g show ?thesis by simp
  next
    case pending
    with g show ?thesis by (auto simp: all_generated_def abort_lines_def)
  next
    case completed
    with g show ?thesis by (auto simp: all_generated_def abort_lines_def)
  qed
qed

lemma all_generated_step:
  assumes "all_generated s \<and> abort_lines s = A" and "download_step ok ev s = Some s'"
  shows "all_generated s' \<and> abort_lines s' = A"
proof (rule step_preserves [where P = "\<lambda>s. all_generated s \<and> abort_lines s = A",
      OF _ _ _ _ _ assms])
  fix now s
  assume "all_generated s \<and> abort_lines s = A"
  then show "all_generated (endOnce now s) \<and> abort_lines (endOnce now s) = A"
    by (simp add: all_generated_def)
next
  fix s
  assume "all_generated s \<and> abort_lines s = A"
  then show "all_generated (abortOnce s) \<and> abort_lines (abortOnce s) = A"
    by (simp add: abortOnce_all_generated)
next
  fix s msg
  assume "all_generated s \<and> abort_lines s = A"
  then show "all_generated (s\<lparr>log := log s @ [DlError msg]\<rparr>) \<and>
      abort_lines (s\<lparr>log := log s @ [DlError msg]\<rparr>) = A"
    by (simp add: all_generated_def abort_lines_def)
next
  fix s
  assume "all_generated s \<and> abort_lines s = A"
  then show "all_generated (s\<lparr>drain_listeners := 0\<rparr>) \<and>
      abort_lines (s\<lparr>drain_listeners := 0\<rparr>) = A"
    by (simp add: all_generated_def)
next
  fix now s s'
  assume "all_generated s \<and> abort_lines s = A" "writeMore ok now s = Some s'"
  then show "all_generated s' \<and> abort_lines s' = A" by (rule all_generated_writeMore)
qed

lemma all_generated_run:
  assumes "all_generated s" and "download_run ok es s = Some s'"
  shows "all_generated s' \<and> abort_lines s' = abort_lines s"
proof -
  from assms(1) have "all_generated s \<and> abort_lines s = abort_lines s" by simp
  then show ?thesis using assms(2)
    by (rule run_preserves [where P = "\<lambda>x. all_generated x \<and> abort_lines x = abort_lines s",
          rotated])
      (rule all_generated_step)
qed


subsection \<open>The loop returns\<close>

text \<open>
  In the exact range every subtraction of the loop is exact, so \<open>remaining\<close> goes down by
  the length of each chunk and the loop returns, whatever the consumer answers; so does every
  event.
\<close>

lemma exact_range_update [simp]:
  "exact_range (s\<lparr>writableEnded := w\<rparr>) = exact_range s"
  "exact_range (s\<lparr>drain_listeners := d\<rparr>) = exact_range s"
  "exact_range (s\<lparr>written := ws\<rparr>) = exact_range s"
  "exact_range (s\<lparr>ended := e\<rparr>) = exact_range s"
  "exact_range (s\<lparr>log := l\<rparr>) = exact_range s"
  "exact_range (endOnce now s) = exact_range s"
  "exact_range (abortOnce s) = exact_range s"
  by (simp_all add: exact_range_def)

lemma writeLoop_returns:
  "exact_range s \<Longrightarrow>
   \<exists>s'. writeLoop ok now s = Some s' \<and> exact_range s' \<and> remaining s' \<le> remaining s \<and>
        (0 < remaining s \<longrightarrow> remaining s' \<le> remaining s - min CHUNK (remaining s))"
proof (induction "nat (remaining s)" arbitrary: s rule: less_induct)
  case less
  show ?case
  proof (cases "0 < remaining s")
    case False
    have "writeLoop ok now s = Some (endOnce now (s\<lparr>writableEnded := True\<rparr>))"
      using False by (rule writeLoop_end)
    then show ?thesis using False less.prems by simp
  next
    case True
    let ?len = "min CHUNK (remaining s)"
    let ?s1 = "s\<lparr>remaining := double_sub (remaining s) ?len, written := written s @ [?len]\<rparr>"
    from less.prems True have r: "remaining s < 2 ^ 69" "representable (remaining s)"
      by (simp_all add: exact_range_def)
    note ex = double_sub_exact [OF r(2) True r(1)]
    have len: "0 < ?len" "?len \<le> remaining s" using True by (simp_all add: CHUNK_def)
    have r1: "remaining ?s1 = remaining s - ?len" using ex(1) by simp
    have "remaining s - ?len < 2 ^ 69" using r(1) len(1) by linarith
    then have e1: "exact_range ?s1" using ex(2) unfolding exact_range_def r1 by blast
    show ?thesis
    proof (cases "ok (length (written s))")
      case False
      let ?s2 = "s\<lparr>remaining := double_sub (remaining s) ?len, written := written s @ [?len],
                    drain_listeners := drain_listeners s + 1\<rparr>"
      have eq: "writeLoop ok now s = Some ?s2"
        using True False by (rule writeLoop_refused)
      have a: "exact_range ?s2" using e1 by simp
      have b: "remaining ?s2 = remaining s - ?len" using ex(1) by simp
      have "writeLoop ok now s = Some ?s2 \<and> exact_range ?s2 \<and> remaining ?s2 \<le> remaining s \<and>
          (0 < remaining s \<longrightarrow> remaining ?s2 \<le> remaining s - ?len)"
        using eq a len unfolding b by simp
      then show ?thesis by blast
    next
      case k: True
      have eq: "writeLoop ok now s = writeLoop ok now ?s1"
        using True k by (rule writeLoop_accepted)
      have "nat (remaining ?s1) < nat (remaining s)" unfolding r1 using len True by linarith
      from less.hyps [OF this e1] obtain s' where s': "writeLoop ok now ?s1 = Some s'"
        "exact_range s'" "remaining s' \<le> remaining ?s1" by blast
      from s'(3) have "remaining s' \<le> remaining s - ?len" unfolding r1 .
      with s'(1,2) len show ?thesis unfolding eq by (intro exI conjI impI) auto
    qed
  qed
qed

lemma writeMore_returns:
  "exact_range s \<Longrightarrow> \<exists>s'. writeMore ok now s = Some s' \<and> exact_range s'"
  using writeLoop_returns [of s ok now] by (auto simp: writeMore_def)

lemma step_returns_exact:
  "exact_range s \<Longrightarrow> \<exists>s'. download_step ok ev s = Some s' \<and> exact_range s'"
  by (rule step_returns [where P = exact_range and ok = ok and ev = ev and s = s])
    (simp_all add: writeMore_returns)

lemma run_returns_exact:
  "exact_range s \<Longrightarrow> \<exists>s'. download_run ok es s = Some s' \<and> exact_range s'"
  by (rule run_returns [where P = exact_range and ok = ok and es = es and s = s])
    (simp_all add: step_returns_exact)

lemma exact_range_open:
  "download_size cfg r < 2 ^ 53 \<Longrightarrow> exact_range (download_open cfg r rid now)"
proof -
  assume b: "download_size cfg r < 2 ^ 53"
  show ?thesis
  proof (cases "download_size cfg r \<le> 0")
    case True
    then show ?thesis by (simp add: exact_range_def download_open_def Let_def)
  next
    case False
    then have "representable (download_size cfg r)" using b by (intro representable_small) simp
    moreover have "download_size cfg r < 2 ^ 69" using b by simp
    ultimately show ?thesis by (simp add: exact_range_def download_open_def Let_def)
  qed
qed

lemma get_returns:
  assumes "exact_range (download_open cfg r rid t0)"
  shows "\<exists>s. download_get ok cfg r rid t0 t1 = Some s \<and> exact_range s"
  unfolding download_get_def using assms by (rule writeMore_returns)

lemma trace_returns:
  assumes "exact_range (download_open cfg r rid t0)"
  shows "\<exists>s. download_trace ok cfg r rid t0 t1 es = Some s"
proof -
  from get_returns [OF assms] obtain g where g: "download_get ok cfg r rid t0 t1 = Some g"
    "exact_range g" by blast
  from run_returns_exact [OF g(2)] obtain s where "download_run ok es g = Some s" by blast
  with g(1) show ?thesis by (simp add: download_trace_def)
qed

subsection \<open>The count\<close>

text \<open>In the exact range the loop and every event keep the count.\<close>

lemma chunks_ok_snoc:
  assumes "chunks_ok s" "sum_list (written s) + remaining s = total s"
  shows "chunks_ok (s\<lparr>remaining := x, written := written s @ [min CHUNK (remaining s)]\<rparr>)"
proof -
  have r: "remaining s = total s - sum_list (written s)" using assms(2) by simp
  show ?thesis
    using assms(1) unfolding chunks_ok_def
    by (auto simp: nth_append less_Suc_eq r)
qed

lemma count_inv_chunk:
  assumes c: "count_inv s" and p: "0 < remaining s"
  shows "count_inv (s\<lparr>remaining := double_sub (remaining s) (min CHUNK (remaining s)),
                     written := written s @ [min CHUNK (remaining s)]\<rparr>)"
proof -
  let ?len = "min CHUNK (remaining s)"
  from c p have r: "remaining s < 2 ^ 69" "representable (remaining s)"
    by (simp_all add: count_inv_def exact_range_def)
  from c have i: "sum_list (written s) + remaining s = total s" "chunks_ok s"
    "writableEnded s \<longrightarrow> remaining s = 0"
    by (simp_all add: count_inv_def)
  note ex = double_sub_exact [OF r(2) p r(1)]
  have len: "0 < ?len" "?len \<le> remaining s" using p by (simp_all add: CHUNK_def)
  have "remaining s - ?len < 2 ^ 69" using r(1) len(1) by linarith
  then have e: "remaining s - ?len \<le> 0
      \<or> (remaining s - ?len < 2 ^ 69 \<and> representable (remaining s - ?len))"
    using ex(2) by blast
  have w: "\<not> writableEnded s" using i(3) p by auto
  have k: "chunks_ok (s\<lparr>remaining := double_sub (remaining s) ?len,
                        written := written s @ [?len]\<rparr>)"
    using i(2,1) by (rule chunks_ok_snoc)
  have sm: "sum_list (written s) + ?len + (remaining s - ?len) = total s" using i(1) by simp
  show ?thesis
    unfolding count_inv_def exact_range_def
    using e w k sm len by (simp add: ex(1))
qed

lemma count_inv_update [simp]:
  "count_inv (s\<lparr>drain_listeners := d\<rparr>) = count_inv s"
  "count_inv (s\<lparr>ended := e\<rparr>) = count_inv s"
  "count_inv (s\<lparr>log := l\<rparr>) = count_inv s"
  "count_inv (endOnce now s) = count_inv s"
  "count_inv (abortOnce s) = count_inv s"
  by (simp_all add: count_inv_def)

lemma count_inv_writeLoop:
  assumes "writeLoop ok now s = Some s'"
  shows "count_inv s \<longrightarrow> count_inv s'"
  using assms
proof (induction rule: writeLoop_induct)
  case (finished ok now s)
  show ?case
  proof
    assume c: "count_inv s"
    with finished have "remaining s = 0" by (simp add: count_inv_def)
    with c have "count_inv (s\<lparr>writableEnded := True\<rparr>)" by (simp add: count_inv_def)
    then show "count_inv (endOnce now (s\<lparr>writableEnded := True\<rparr>))" by simp
  qed
next
  case (refused ok now s)
  show ?case
  proof
    assume c: "count_inv s"
    from count_inv_chunk [OF c refused(1)]
    have "count_inv ((s\<lparr>remaining := double_sub (remaining s) (min CHUNK (remaining s)),
                     written := written s @ [min CHUNK (remaining s)]\<rparr>)
                     \<lparr>drain_listeners := drain_listeners s + 1\<rparr>)"
      by (simp only: count_inv_update)
    then show "count_inv (s\<lparr>remaining := double_sub (remaining s) (min CHUNK (remaining s)),
                     written := written s @ [min CHUNK (remaining s)],
                     drain_listeners := drain_listeners s + 1\<rparr>)"
      by simp
  qed
next
  case (accepted ok now s s')
  show ?case
  proof
    assume c: "count_inv s"
    from count_inv_chunk [OF c accepted(1)] accepted.IH show "count_inv s'" by blast
  qed
qed

lemma count_inv_writeMore: "count_inv s \<Longrightarrow> writeMore ok now s = Some s' \<Longrightarrow> count_inv s'"
  using count_inv_writeLoop [of ok now s s'] by (auto simp: writeMore_def split: if_splits)

lemma count_inv_step: "count_inv s \<Longrightarrow> download_step ok ev s = Some s' \<Longrightarrow> count_inv s'"
  by (rule step_preserves [where P = count_inv and ok = ok and ev = ev and s = s])
    (simp_all add: count_inv_writeMore)

lemma count_inv_run: "count_inv s \<Longrightarrow> download_run ok es s = Some s' \<Longrightarrow> count_inv s'"
  by (rule run_preserves [where P = count_inv and ok = ok and es = es and s = s])
    (simp_all add: count_inv_step)

lemma count_inv_open:
  assumes "0 \<le> download_size cfg r" and "exact_range (download_open cfg r rid now)"
  shows "count_inv (download_open cfg r rid now)"
  using assms by (simp add: count_inv_def chunks_ok_def) (simp add: download_open_def Let_def)

lemma count_inv_trace:
  assumes "0 \<le> download_size cfg r" and "exact_range (download_open cfg r rid t0)"
    and "download_trace ok cfg r rid t0 t1 es = Some s"
  shows "count_inv s"
proof -
  from assms(3) obtain g where g: "download_get ok cfg r rid t0 t1 = Some g"
    and r: "download_run ok es g = Some s"
    by (auto simp: download_trace_def split: option.splits)
  from g have "count_inv g"
    unfolding download_get_def by (rule count_inv_writeMore [OF count_inv_open [OF assms(1,2)]])
  then show ?thesis using r by (rule count_inv_run)
qed

subsection \<open>Total and declared length\<close>

text \<open>No step changes \<open>total\<close> or the \<^verbatim>\<open>Content-Length\<close> header.\<close>

lemma static_step:
  assumes "total s = n \<and> content_length s = c" and "download_step ok ev s = Some s'"
  shows "total s' = n \<and> content_length s' = c"
  by (rule step_preserves [where P = "\<lambda>s. total s = n \<and> content_length s = c",
        OF _ _ _ _ _ assms])
    (use writeMore_static in \<open>simp_all\<close>)

lemma static_run:
  assumes "download_run ok es s = Some s'"
  shows "total s' = total s \<and> content_length s' = content_length s"
proof -
  have "total s = total s \<and> content_length s = content_length s" by simp
  then show ?thesis using assms
    by (rule run_preserves
        [where P = "\<lambda>x. total x = total s \<and> content_length x = content_length s", rotated])
      (rule static_step)
qed

lemma static_trace:
  assumes "download_trace ok cfg r rid t0 t1 es = Some s"
  shows "total s = download_size cfg r \<and> content_length s = js_String (download_size cfg r)"
proof -
  from assms obtain g where g: "download_get ok cfg r rid t0 t1 = Some g"
    and r: "download_run ok es g = Some s"
    by (auto simp: download_trace_def split: option.splits)
  from g have "total g = download_size cfg r \<and> content_length g = js_String (download_size cfg r)"
    unfolding download_get_def using writeMore_static
    by (fastforce simp: download_open_def Let_def)
  with static_run [OF r] show ?thesis by simp
qed

subsection \<open>Completion\<close>

text \<open>
  Once the response is ended it stays ended. In the exact range a call of the write loop
  either ends the response or leaves one more listener and at least one chunk less to
  write; enough drains therefore end the response, and a consumer that accepts every write
  has it ended by the first call.
\<close>

lemma writableEnded_writeMore:
  assumes "writableEnded s" and "writeMore ok now s = Some s'"
  shows "writableEnded s'"
  using writeMore_outcome [OF assms(2)] assms(1) by auto

lemma writableEnded_step:
  "writableEnded s \<Longrightarrow> download_step ok ev s = Some s' \<Longrightarrow> writableEnded s'"
  by (rule step_preserves [where P = writableEnded and ok = ok and ev = ev and s = s])
    (simp_all add: writableEnded_writeMore)

lemma writableEnded_run:
  "writableEnded s \<Longrightarrow> download_run ok es s = Some s' \<Longrightarrow> writableEnded s'"
  by (rule run_preserves [where P = writableEnded and ok = ok and es = es and s = s])
    (simp_all add: writableEnded_step)

lemma writableEnded_run_returns:
  assumes "writableEnded s" and "exact_range s"
  shows "\<exists>s'. download_run ok es s = Some s' \<and> writableEnded s'"
proof -
  from run_returns_exact [OF assms(2)] obtain s' where r: "download_run ok es s = Some s'"
    by blast
  from writableEnded_run [OF assms(1) r] r show ?thesis by simp
qed

lemma writeLoop_all_accepted:
  assumes "\<forall>k. ok k" and "exact_range s"
  shows "\<exists>s'. writeLoop ok now s = Some s' \<and> writableEnded s' \<and> exact_range s'"
proof -
  from writeLoop_returns [OF assms(2)] obtain s' where r: "writeLoop ok now s = Some s'"
    and e: "exact_range s'" by blast
  from writeLoop_outcome [OF r] assms(1) have "writableEnded s'" by blast
  with r e show ?thesis by simp
qed

lemma calls_one: "calls (Suc 0) f s = f s"
  by (simp split: option.splits)

lemma calls_1: "calls 1 f s = f s"
  by (simp split: option.splits)

lemma writeLoop_progress:
  assumes "exact_range s"
  shows "\<exists>s'. writeLoop ok now s = Some s' \<and> exact_range s' \<and>
     (writableEnded s' \<or>
      (ended s' = ended s \<and> drain_listeners s' = drain_listeners s + 1 \<and> 0 < remaining s \<and>
       remaining s' \<le> remaining s - min CHUNK (remaining s)))"
proof -
  from writeLoop_returns [OF assms] obtain s' where r: "writeLoop ok now s = Some s'"
    and e: "exact_range s'"
    and p: "0 < remaining s \<longrightarrow> remaining s' \<le> remaining s - min CHUNK (remaining s)"
    by blast
  from writeLoop_outcome [OF r] p
  have "writableEnded s' \<or>
      (ended s' = ended s \<and> drain_listeners s' = drain_listeners s + 1 \<and> 0 < remaining s \<and>
       remaining s' \<le> remaining s - min CHUNK (remaining s))"
    by blast
  with r e show ?thesis by blast
qed

lemma drain_progress:
  assumes "exact_range s" "\<not> ended s" "drain_listeners s = 1"
  shows "\<exists>s'. download_step ok (t, Drain) s = Some s' \<and> exact_range s' \<and>
     (writableEnded s' \<or>
      (\<not> ended s' \<and> drain_listeners s' = 1 \<and> 0 < remaining s \<and>
       remaining s' \<le> remaining s - min CHUNK (remaining s)))"
proof -
  let ?s0 = "s\<lparr>drain_listeners := 0\<rparr>"
  have eq: "download_step ok (t, Drain) s = writeLoop ok t ?s0"
    using assms(2,3) by (simp only: download_step.simps calls_1) (simp add: writeMore_def)
  have "exact_range ?s0" using assms(1) by simp
  from writeLoop_progress [OF this, of ok t] assms(2) show ?thesis unfolding eq by auto
qed

lemma drains_complete:
  assumes "exact_range s" and "writableEnded s \<or> (\<not> ended s \<and> drain_listeners s = 1)"
    and "ts \<noteq> []" and "remaining s \<le> (int (length ts) - 1) * CHUNK"
  shows "\<exists>s'. download_run ok (drain_events ts) s = Some s' \<and> writableEnded s'"
  using assms
proof (induction ts arbitrary: s)
  case Nil
  then show ?case by simp
next
  case (Cons t ts)
  show ?case
  proof (cases "writableEnded s")
    case True
    then show ?thesis using Cons.prems(1) by (rule writableEnded_run_returns)
  next
    case False
    with Cons.prems(2) have p: "\<not> ended s" "drain_listeners s = 1" by simp_all
    from drain_progress [OF Cons.prems(1) p, of ok t]
    obtain s1 where st: "download_step ok (t, Drain) s = Some s1" and e1: "exact_range s1"
      and q: "writableEnded s1 \<or>
        (\<not> ended s1 \<and> drain_listeners s1 = 1 \<and> 0 < remaining s \<and>
         remaining s1 \<le> remaining s - min CHUNK (remaining s))"
      by blast
    have run: "download_run ok (drain_events (t # ts)) s = download_run ok (drain_events ts) s1"
      using st by (simp add: drain_events_def)
    show ?thesis
    proof (cases "writableEnded s1")
      case True
      from writableEnded_run_returns [OF True e1] show ?thesis unfolding run .
    next
      case w: False
      with q have q': "\<not> ended s1" "drain_listeners s1 = 1" "0 < remaining s"
        "remaining s1 \<le> remaining s - min CHUNK (remaining s)" by simp_all
      have ne: "ts \<noteq> []"
      proof
        assume "ts = []"
        with Cons.prems(4) have "remaining s \<le> 0" by simp
        with q'(3) show False by simp
      qed
      have b: "remaining s1 \<le> (int (length ts) - 1) * CHUNK"
      proof (cases "CHUNK \<le> remaining s")
        case True
        then have "remaining s1 \<le> remaining s - CHUNK" using q'(4) by simp
        also have "\<dots> \<le> (int (length ts) - 1) * CHUNK"
          using Cons.prems(4) by (simp add: algebra_simps)
        finally show ?thesis .
      next
        case False
        then have "remaining s1 \<le> 0" using q'(4) by simp
        moreover have "0 \<le> (int (length ts) - 1) * CHUNK"
          using ne by (cases ts) (simp_all add: CHUNK_def)
        ultimately show ?thesis by simp
      qed
      have "writableEnded s1 \<or> (\<not> ended s1 \<and> drain_listeners s1 = 1)" using q' by simp
      from Cons.IH [OF e1 this ne b] show ?thesis unfolding run .
    qed
  qed
qed

lemma get_all_accepted:
  assumes "\<forall>k. ok k" and "exact_range (download_open cfg r rid t0)"
  shows "download_get ok cfg r rid t0 t1 \<noteq> None \<and>
         map_option writableEnded (download_get ok cfg r rid t0 t1) = Some True"
proof -
  let ?o = "download_open cfg r rid t0"
  have "\<not> ended ?o" by (simp add: download_open_def Let_def)
  then have eq: "download_get ok cfg r rid t0 t1 = writeLoop ok t1 ?o"
    by (simp add: download_get_def writeMore_def)
  from writeLoop_all_accepted [OF assms, of t1] show ?thesis unfolding eq by auto
qed

lemma get_drains_complete:
  assumes ex: "exact_range (download_open cfg r rid t0)"
    and sz: "download_size cfg r \<le> int (length ts) * CHUNK"
  shows "map_option writableEnded (download_trace ok cfg r rid t0 t1 (drain_events ts))
         = Some True"
proof -
  let ?o = "download_open cfg r rid t0"
  have o: "\<not> ended ?o" "drain_listeners ?o = 0" "remaining ?o = download_size cfg r"
    by (simp_all add: download_open_def Let_def)
  have eq: "download_get ok cfg r rid t0 t1 = writeLoop ok t1 ?o"
    using o by (simp add: download_get_def writeMore_def)
  from writeLoop_progress [OF ex, of ok t1]
  obtain g where g: "download_get ok cfg r rid t0 t1 = Some g" and eg: "exact_range g"
    and q: "writableEnded g \<or>
      (ended g = ended ?o \<and> drain_listeners g = drain_listeners ?o + 1 \<and> 0 < remaining ?o \<and>
       remaining g \<le> remaining ?o - min CHUNK (remaining ?o))"
    unfolding eq by blast
  have "\<exists>s'. download_run ok (drain_events ts) g = Some s' \<and> writableEnded s'"
  proof (cases "writableEnded g")
    case True
    then show ?thesis using eg by (rule writableEnded_run_returns)
  next
    case False
    with q o have q': "\<not> ended g" "drain_listeners g = 1" "0 < download_size cfg r"
      "remaining g \<le> download_size cfg r - min CHUNK (download_size cfg r)" by simp_all
    have ne: "ts \<noteq> []" using sz q'(3) by auto
    have b: "remaining g \<le> (int (length ts) - 1) * CHUNK"
    proof (cases "CHUNK \<le> download_size cfg r")
      case True
      then have "remaining g \<le> download_size cfg r - CHUNK" using q'(4) by simp
      also have "\<dots> \<le> (int (length ts) - 1) * CHUNK" using sz by (simp add: algebra_simps)
      finally show ?thesis .
    next
      case False
      then have "remaining g \<le> 0" using q'(4) by simp
      moreover have "0 \<le> (int (length ts) - 1) * CHUNK"
        using ne by (cases ts) (simp_all add: CHUNK_def)
      ultimately show ?thesis by simp
    qed
    have "writableEnded g \<or> (\<not> ended g \<and> drain_listeners g = 1)" using q' by simp
    from drains_complete [OF eg this ne b] show ?thesis .
  qed
  then show ?thesis using g by (auto simp: download_trace_def)
qed

subsection \<open>Flow control\<close>

text \<open>
  Over a session each refused write that is followed by another write has its own drain.
\<close>

lemma flow_inv_writeMore:
  assumes z: "drain_listeners s = 0" and w: "writeMore ok now s = Some s'"
  shows "flow_inv ok s' (refused ok (length (written s)))"
proof (cases "ended s")
  case True
  with w have "s' = s" by (simp add: writeMore_def)
  then show ?thesis using z by (simp add: flow_inv_def refused_mono)
next
  case False
  with w have l: "writeLoop ok now s = Some s'" by (simp add: writeMore_def)
  from writeLoop_written [OF l]
  have r: "refused ok (length (written s') - 1) \<le> refused ok (length (written s))" by simp
  from writeLoop_outcome [OF l] z
  have "drain_listeners s' = 1 \<and> written s' \<noteq> [] \<and> \<not> ok (length (written s') - 1)
      \<or> drain_listeners s' = 0"
    by auto
  with r show ?thesis by (auto simp: flow_inv_def)
qed

lemma flow_inv_weaken: "flow_inv ok s m \<Longrightarrow> m \<le> n \<Longrightarrow> flow_inv ok s n"
  by (simp add: flow_inv_def)

lemma flow_inv_step:
  assumes f: "flow_inv ok s n" and st: "download_step ok ev s = Some s'"
  shows "flow_inv ok s' (n + (if is_drain (snd ev) then 1 else 0))"
proof -
  obtain now e where ev: "ev = (now, e)" by (cases ev)
  show ?thesis
  proof (cases e)
    case Drain
    let ?s0 = "s\<lparr>drain_listeners := 0\<rparr>"
    from f have "drain_listeners s = 0 \<or> drain_listeners s = 1"
      by (auto simp: flow_inv_def)
    then show ?thesis
    proof
      assume z: "drain_listeners s = 0"
      with st ev Drain have "s' = ?s0" by simp
      then show ?thesis using f z ev Drain by (simp add: flow_inv_def)
    next
      assume o: "drain_listeners s = 1"
      from st have "calls (drain_listeners s) (writeMore ok now) ?s0 = Some s'"
        unfolding ev Drain by (simp only: download_step.simps)
      then have eq: "writeMore ok now ?s0 = Some s'" by (simp only: o calls_1)
      have "flow_inv ok s' (refused ok (length (written ?s0)))"
        by (rule flow_inv_writeMore [OF _ eq]) simp
      moreover have "refused ok (length (written ?s0)) \<le> n + 1"
        using f refused_pred [of ok "length (written s)"] by (simp add: flow_inv_def)
      ultimately have "flow_inv ok s' (n + 1)" by (rule flow_inv_weaken)
      then show ?thesis using ev Drain by simp
    qed
  qed (use f st ev in \<open>auto simp: flow_inv_def split: if_splits\<close>)
qed

lemma flow_inv_run:
  "flow_inv ok s n \<Longrightarrow> download_run ok es s = Some s' \<Longrightarrow> flow_inv ok s' (n + drains es)"
proof (induction es arbitrary: s n)
  case Nil
  then show ?case by (simp add: drains_def)
next
  case (Cons ev es)
  from Cons.prems(2) obtain s1 where a: "download_step ok ev s = Some s1"
    and b: "download_run ok es s1 = Some s'"
    by (auto split: option.splits)
  from flow_inv_step [OF Cons.prems(1) a]
  have "flow_inv ok s1 (n + (if is_drain (snd ev) then 1 else 0))" .
  from Cons.IH [OF this b] show ?case
    by (cases "is_drain (snd ev)") (simp_all add: drains_def)
qed

lemma flow_inv_trace:
  assumes "download_trace ok cfg r rid t0 t1 es = Some s"
  shows "flow_inv ok s (drains es)"
proof -
  from assms obtain g where g: "download_get ok cfg r rid t0 t1 = Some g"
    and r: "download_run ok es g = Some s"
    by (auto simp: download_trace_def split: option.splits)
  have "flow_inv ok g (refused ok (length (written (download_open cfg r rid t0))))"
    using g unfolding download_get_def
    by (rule flow_inv_writeMore [rotated]) (simp add: download_open_def Let_def)
  then have "flow_inv ok g 0" by (simp add: download_open_def Let_def refused_def)
  from flow_inv_run [OF this r] show ?thesis by simp
qed

subsection \<open>The declared length\<close>

text \<open>
  Below \<open>2 ^ 53\<close> the header holds the decimal digits of the size, and they denote it.
\<close>

lemma digits_value_snoc: "digits_value (z @ [c]) = 10 * digits_value z + (int c - 48)"
  by (simp add: digits_value_def)

lemma decimal_value: "digits_value (decimal n) = int n"
proof (induction n rule: decimal.induct)
  case (1 n)
  show ?case
  proof (cases "n < 10")
    case True
    then show ?thesis by (subst decimal.simps) (simp add: digits_value_def)
  next
    case False
    then have "digits_value (decimal n) =
        10 * digits_value (decimal (n div 10)) + int (n mod 10)"
      by (subst decimal.simps) (simp add: digits_value_snoc)
    also have "\<dots> = 10 * int (n div 10) + int (n mod 10)" using "1.IH" [OF False] by simp
    also have "\<dots> = int (10 * (n div 10) + n mod 10)"
      by (simp only: of_nat_add of_nat_mult of_nat_numeral)
    also have "\<dots> = int n" by (simp only: mult_div_mod_eq)
    finally show ?thesis .
  qed
qed

lemma decimal_digits: "decimal n \<noteq> [] \<and> list_all is_digit (decimal n)"
proof (induction n rule: decimal.induct)
  case (1 n)
  show ?case
  proof (cases "n < 10")
    case True
    then show ?thesis by (subst (1 2) decimal.simps) (simp add: is_digit_def)
  next
    case False
    have "n mod 10 < 10" by simp
    then have "is_digit (48 + n mod 10)" unfolding is_digit_def by linarith
    with "1.IH" [OF False] False show ?thesis by (subst (1 2) decimal.simps) simp
  qed
qed

lemma declared_length_small:
  assumes "0 \<le> n" and "n < 2 ^ 53"
  shows "declared_length (js_String n) = Some n"
proof -
  have "nat n < 2 ^ 53" using assms by (simp add: nat_less_iff)
  then have "js_String n = decimal (nat n)" using assms(1) by (simp add: js_String_def num_string_def)
  then show ?thesis using assms(1) by (simp add: declared_length_def decimal_digits decimal_value)
qed

subsection \<open>Rounding by hand\<close>

text \<open>The rounding of a number whose bit length is known, for the sample values.\<close>

lemma floorlog_eqI: "2 ^ (w - 1) \<le> x \<Longrightarrow> x < 2 ^ w \<Longrightarrow> floorlog 2 x = w"
  by (intro antisym floorlog_leI floorlog_geI) simp_all

lemma round53_at:
  assumes "2 ^ (e - 1) \<le> m" and "m < 2 ^ e" and "53 < e"
  shows "round53 m =
     (if 2 ^ (e - 54) < m mod 2 ^ (e - 53) \<or>
         (m mod 2 ^ (e - 53) = 2 ^ (e - 54) \<and> odd (m div 2 ^ (e - 53)))
      then m div 2 ^ (e - 53) + 1 else m div 2 ^ (e - 53)) * 2 ^ (e - 53)"
proof -
  have "floorlog 2 m = e" using assms(1,2) by (rule floorlog_eqI)
  moreover have "e - 53 - 1 = e - 54" by simp
  ultimately show ?thesis using assms(3) by (simp add: round53_def Let_def)
qed

lemmas round53_eval = round53_small
  round53_at [where e = 54, simplified] round53_at [where e = 55, simplified]
  round53_at [where e = 56, simplified] round53_at [where e = 57, simplified]

subsection \<open>Sample sessions\<close>

text \<open>The sample download under the three consumers, and the download of
  18014398509481992 bytes.\<close>

lemma sample_size: "download_size (register_config no_env) (Some (ascii ''100000'')) = 100000"
  by (simp add: download_size_def query_size_def register_config_no_env parse_eval)

lemma sample_open_eq:
  "sample_open =
     \<lparr> reqId = ''r1'', total = 100000, start = 0, remaining = 100000, ended = False,
       statusCode = 200, content_length = ascii ''100000'', written = [], writableEnded = False,
       drain_listeners = 0, log = [DlStart ''r1'' (ascii ''100000'') 100000] \<rparr>"
  by (simp add: sample_open_def download_open_def sample_size query_size_def Let_def
      js_String_def num_string_def decimal.simps)
    (simp add: ascii_def)

lemmas loop_eval = writeMore_def writeLoop.simps endOnce_def abortOnce_def CHUNK_def
  double_sub_def round_double_small

lemma sample_get:
  "download_get ok (register_config no_env) (Some (ascii ''100000'')) ''r1'' 0 2
     = writeMore ok 2 sample_open"
  by (simp add: download_get_def sample_open_def)

lemma sample_get_refuse_all: "writeMore refuse_all 2 sample_open = Some sample_pending"
  by (simp add: sample_open_eq sample_pending_def loop_eval refuse_all_def)

lemma sample_get_refuse_second: "writeMore refuse_second 2 sample_open = Some sample_generated"
  by (simp add: sample_open_eq sample_generated_def loop_eval refuse_second_def)

lemma sample_get_accept_all: "writeMore accept_all 2 sample_open = Some sample_completed"
  by (simp add: sample_open_eq sample_completed_def loop_eval accept_all_def)

lemma sample_trace_eq:
  "sample_trace ok es =
     (case writeMore ok 2 sample_open of None \<Rightarrow> None | Some s \<Rightarrow> download_run ok es s)"
  by (simp add: sample_trace_def download_trace_def sample_get)

lemmas run_eval = loop_eval terminal_lines_def abort_lines_def

lemma huge_size:
  "download_size (register_config huge_download_env) (Some (ascii ''18014398509481990''))
     = 18014398509481992"
proof -
  have r: "round53 18014398509481990 = 18014398509481992" by (simp add: round53_eval)
  have p: "js_parseInt (ascii ''18014398509481990'') = Fin 18014398509481992"
    by (simp add: parse_eval to_number_def r Let_def)
  have m: "MAX_DOWNLOAD (register_config huge_download_env) = 18014398509481992"
    using p by (simp add: register_config_def huge_download_env_def envInt_def Let_def)
      (simp add: ascii_def)
  show ?thesis by (simp add: download_size_def query_size_def p m Let_def)
qed

lemma huge_representable: "representable 18014398509481992"
proof -
  have "round53 18014398509481992 = 18014398509481992" by (simp add: round53_eval)
  then show ?thesis by (simp add: representable_def round_double_def)
qed

lemma huge_candidates:
  "candidates 18014398509481992 =
     [(16, 17, 1801439850948199), (17, 17, 18014398509481992), (17, 17, 18014398509481993)]"
  by (simp add: candidates_def decimal.simps Let_def upt_rec round53_eval)

lemma huge_string: "js_String 18014398509481992 = ascii ''18014398509481990''"
  by (simp add: js_String_def num_string_def shortest_def huge_candidates decimal.simps ascii_def)

lemma huge_declared: "declared_length (js_String 18014398509481992) = Some 18014398509481990"
  unfolding huge_string by (simp add: declared_length_def parse_eval)

lemma huge_exact:
  "exact_range (download_open (register_config huge_download_env)
     (Some (ascii ''18014398509481990'')) rid t0)"
  by (simp add: exact_range_def download_open_def huge_size huge_representable Let_def)

subsection \<open>The loop that does not return\<close>

text \<open>
  At \<open>2 ^ 70\<close> the subtraction of a chunk is absorbed: the difference lies half way
  between two doubles and rounds to the even one, which is \<open>2 ^ 70\<close> again. With a
  consumer that accepts every write the loop then never ends, and the handler never
  returns.
\<close>

lemma absorbed: "double_sub (2 ^ 70) (min CHUNK (2 ^ 70)) = 2 ^ 70"
proof -
  have "round53 1180591620717411237888 = 1180591620717411303424"
    by (simp add: round53_at [where e = 70])
  then show ?thesis by (simp add: double_sub_def round_double_def CHUNK_def)
qed

lemma writeLoop_diverges:
  assumes "\<forall>k. ok k" and "remaining s = 2 ^ 70"
  shows "writeLoop ok now s = None"
proof -
  have "remaining s = 2 ^ 70 \<longrightarrow> (\<forall>k. ok k) \<longrightarrow> False" if "writeLoop ok now s = Some s'" for s'
    using that
  proof (induction rule: writeLoop_induct)
    case (finished ok now s)
    then show ?case by simp
  next
    case (refused ok now s)
    then show ?case by blast
  next
    case (accepted ok now s s')
    show ?case
    proof (intro impI)
      assume r: "remaining s = 2 ^ 70" and k: "\<forall>k. ok k"
      have "remaining (s\<lparr>remaining := double_sub (remaining s) (min CHUNK (remaining s)),
                         written := written s @ [min CHUNK (remaining s)]\<rparr>) = 2 ^ 70"
        using absorbed by (simp add: r)
      with accepted.IH k show False by blast
    qed
  qed
  with assms have "writeLoop ok now s \<noteq> Some s'" for s' by blast
  then show ?thesis by (cases "writeLoop ok now s") blast+
qed

lemma zetta_size:
  "download_size (register_config zetta_download_env) (Some (ascii ''1180591620717411303424''))
     = 2 ^ 70"
proof -
  have r: "round53 1180591620717411303424 = 1180591620717411303424"
    by (simp add: round53_at [where e = 71])
  have p: "js_parseInt (ascii ''1180591620717411303424'') = Fin 1180591620717411303424"
    by (simp add: parse_eval to_number_def r Let_def)
  have m: "MAX_DOWNLOAD (register_config zetta_download_env) = 1180591620717411303424"
    using p by (simp add: register_config_def zetta_download_env_def envInt_def Let_def)
      (simp add: ascii_def)
  show ?thesis by (simp add: download_size_def query_size_def p m Let_def)
qed

lemma download_never_returns:
  "download_get accept_all (register_config zetta_download_env)
     (Some (ascii ''1180591620717411303424'')) rid t0 t1 = None"
proof -
  let ?o = "download_open (register_config zetta_download_env)
     (Some (ascii ''1180591620717411303424'')) rid t0"
  have o: "\<not> ended ?o" "remaining ?o = 2 ^ 70"
    by (simp_all add: download_open_def Let_def zetta_size)
  have "\<forall>k. accept_all k" by (simp add: accept_all_def)
  from writeLoop_diverges [OF this o(2)] o(1) show ?thesis
    by (simp add: download_get_def writeMore_def)
qed

subsection \<open>The header from \<open>10 ^ 21\<close> on\<close>

text \<open>
  From \<open>10 ^ 21\<close> on \<^verbatim>\<open>String(total)\<close> is in exponent notation, which declares
  no length.
\<close>

lemma sextillion_shortest: "shortest 1000000000000000000000 = Some (1, 22, 1)"
  by (simp add: shortest_def candidates_def decimal.simps Let_def upt_rec
      round53_at [where e = 70, simplified] round53_at [where e = 71, simplified]
      round53_at [where e = 72, simplified] round53_at [where e = 73, simplified]
      round53_at [where e = 74, simplified])

lemma sextillion_string: "js_String 1000000000000000000000 = ascii ''1e+21''"
  by (simp add: js_String_def num_string_def sextillion_shortest decimal.simps ascii_def)

lemma sextillion_declared: "declared_length (js_String 1000000000000000000000) = None"
  unfolding sextillion_string by (simp add: declared_length_def ascii_def is_digit_def)

subsection \<open>Results\<close>


lemma download_size_register_pos: "0 < download_size (register_config env) r"
  using download_size_bounds [of "register_config env" r] register_config_pos [of env] by simp

lemma step_not_drain:
  assumes "\<not> is_drain e"
  shows "map_option written (download_step ok (t, e) s) = Some (written s) \<and>
         map_option drain_listeners (download_step ok (t, e) s) = Some (drain_listeners s)"
  using assms by (cases e) simp_all




text \<open>
  Claim C3. For a download whose resolved size is below \<open>2 ^ 53\<close>: the session reaches a
  state after any events, and in every such state the \<^verbatim>\<open>Content-Length\<close> header
  declares the resolved size, the lengths of the chunks written and the bytes remaining add
  up to it, and each chunk has the length \<open>min CHUNK remaining\<close>, \<open>remaining\<close> being
  the size less the chunks before it; so once the response is ended
  (\<^verbatim>\<open>res.end()\<close> was called), the chunks written sum to exactly the declared
  length. The session does run to completion: at once when the consumer accepts every
  write, and after \<open>n\<close> drain events, whatever the consumer answers, when
  \<open>n * CHUNK\<close> covers the size.
\<close>

theorem download_declared_length:
  assumes "download_size (register_config env) r < 2 ^ 53"
  shows "(\<exists>s. download_trace ok (register_config env) r rid t0 t1 es = Some s) \<and>
   (download_trace ok (register_config env) r rid t0 t1 es = Some s \<longrightarrow>
      (let n = download_size (register_config env) r in
       declared_length (content_length s) = Some n \<and> total s = n \<and> 0 \<le> remaining s \<and>
       sum_list (written s) + remaining s = n \<and>
       (\<forall>i<length (written s). written s ! i = min CHUNK (n - sum_list (take i (written s)))) \<and>
       (writableEnded s \<longrightarrow> remaining s = 0 \<and> sum_list (written s) = n))) \<and>
   ((\<forall>k. ok k) \<longrightarrow>
      map_option writableEnded (download_get ok (register_config env) r rid t0 t1) = Some True) \<and>
   (download_size (register_config env) r \<le> int (length ts) * CHUNK \<longrightarrow>
      map_option writableEnded
        (download_trace ok (register_config env) r rid t0 t1 (drain_events ts)) = Some True)"
proof -
  let ?cfg = "register_config env"
  let ?n = "download_size ?cfg r"
  have pos: "0 < ?n" by (rule download_size_register_pos)
  have ex: "exact_range (download_open ?cfg r rid t0)" using assms by (rule exact_range_open)
  have a: "\<exists>s. download_trace ok ?cfg r rid t0 t1 es = Some s" using ex by (rule trace_returns)
  have b: "download_trace ok ?cfg r rid t0 t1 es = Some s \<longrightarrow>
      (let n = ?n in
       declared_length (content_length s) = Some n \<and> total s = n \<and> 0 \<le> remaining s \<and>
       sum_list (written s) + remaining s = n \<and>
       (\<forall>i<length (written s). written s ! i = min CHUNK (n - sum_list (take i (written s)))) \<and>
       (writableEnded s \<longrightarrow> remaining s = 0 \<and> sum_list (written s) = n))"
  proof
    assume tr: "download_trace ok ?cfg r rid t0 t1 es = Some s"
    from static_trace [OF tr] have st: "total s = ?n" "content_length s = js_String ?n"
      by simp_all
    have dl: "declared_length (content_length s) = Some ?n"
      unfolding st(2) using pos assms by (intro declared_length_small) simp_all
    have "0 \<le> ?n" using pos by simp
    from count_inv_trace [OF this ex tr]
    have c: "0 \<le> remaining s" "sum_list (written s) + remaining s = total s"
      "chunks_ok s" "writableEnded s \<longrightarrow> remaining s = 0"
      by (simp_all add: count_inv_def)
    have k: "\<forall>i<length (written s).
        written s ! i = min CHUNK (?n - sum_list (take i (written s)))"
      using c(3) unfolding chunks_ok_def st(1) .
    have w: "writableEnded s \<longrightarrow> remaining s = 0 \<and> sum_list (written s) = ?n"
      using c(2,4) st(1) by auto
    from dl st(1) c(1) c(2) [unfolded st(1)] k w
    show "let n = ?n in
       declared_length (content_length s) = Some n \<and> total s = n \<and> 0 \<le> remaining s \<and>
       sum_list (written s) + remaining s = n \<and>
       (\<forall>i<length (written s). written s ! i = min CHUNK (n - sum_list (take i (written s)))) \<and>
       (writableEnded s \<longrightarrow> remaining s = 0 \<and> sum_list (written s) = n)"
      unfolding Let_def by (intro conjI)
  qed
  have c: "(\<forall>k. ok k) \<longrightarrow>
      map_option writableEnded (download_get ok ?cfg r rid t0 t1) = Some True"
    using get_all_accepted [OF _ ex] by blast
  have d: "?n \<le> int (length ts) * CHUNK \<longrightarrow>
      map_option writableEnded (download_trace ok ?cfg r rid t0 t1 (drain_events ts)) = Some True"
    using get_drains_complete [OF ex] by blast
  from a b c d show ?thesis by (intro conjI)
qed

text \<open>
  100000 bytes go out as 65536 and 34464, and the header declares 100000: in one call
  when every write is accepted, and over two drains when every write is refused.
\<close>

theorem download_declared_length_witness:
  "download_size (register_config no_env) (Some (ascii ''100000'')) < 2 ^ 53 \<and>
   sample_trace accept_all [] = Some sample_completed \<and>
   declared_length (content_length sample_completed) = Some 100000 \<and>
   written sample_completed = [65536, 34464] \<and>
   sum_list (written sample_completed) = 100000 \<and>
   map_option writableEnded (sample_trace refuse_all (drain_events [1, 2])) = Some True \<and>
   map_option written (sample_trace refuse_all (drain_events [1, 2])) = Some [65536, 34464]"
proof -
  have sz: "download_size (register_config no_env) (Some (ascii ''100000'')) < 2 ^ 53"
    by (simp add: sample_size)
  have cv: "download_size (register_config no_env) (Some (ascii ''100000'')) \<le>
      int (length [1, 2 :: int]) * CHUNK"
    by (simp add: sample_size CHUNK_def)
  have t: "sample_trace accept_all [] = Some sample_completed"
    by (simp add: sample_trace_eq sample_get_accept_all)
  have w: "writableEnded sample_completed" by (simp add: sample_completed_def)
  note T = download_declared_length
    [OF sz, where ok = accept_all and rid = "''r1''" and ?t0.0 = 0 and ?t1.0 = 2 and es = "[]"
      and s = sample_completed and ts = "[]"]
  from T [THEN conjunct2, THEN conjunct1, THEN mp, OF t [unfolded sample_trace_def]] w
  have a: "declared_length (content_length sample_completed) = Some 100000 \<and>
      sum_list (written sample_completed) = 100000"
    by (simp add: Let_def sample_size)
  note T' = download_declared_length
    [OF sz, where ok = refuse_all and rid = "''r1''" and ?t0.0 = 0 and ?t1.0 = 2 and es = "[]"
      and s = sample_completed and ts = "[1, 2]"]
  from T' [THEN conjunct2, THEN conjunct2, THEN conjunct2, THEN mp, OF cv]
  have b: "map_option writableEnded (sample_trace refuse_all (drain_events [1, 2])) = Some True"
    by (simp only: sample_trace_def)
  have c: "map_option written (sample_trace refuse_all (drain_events [1, 2]))
      = Some [65536, 34464]"
    by (simp add: sample_trace_eq sample_get_refuse_all drain_events_def)
      (simp add: sample_pending_def run_eval refuse_all_def)
  have d: "written sample_completed = [65536, 34464]" by (simp add: sample_completed_def)
  from sz t a b c d show ?thesis by (intro conjI) simp_all
qed

text \<open>
  Without the bound the claim does not hold. With \<^verbatim>\<open>MAX_DOWNLOAD=18014398509481990\<close>
  and the same digits requested, the size is the double 18014398509481992; a consumer that
  accepts every write receives that many bytes, and the header, set to
  \<^verbatim>\<open>String(total)\<close>, reads \<^verbatim>\<open>18014398509481990\<close>.
\<close>

theorem download_declared_length_counterexample:
  "map_option
     (\<lambda>s. (writableEnded s, total s, sum_list (written s), content_length s,
           declared_length (content_length s)))
     (huge_trace accept_all [])
   = Some (True, 18014398509481992, 18014398509481992, ascii ''18014398509481990'',
           Some 18014398509481990)"
proof -
  let ?cfg = "register_config huge_download_env"
  let ?r = "Some (ascii ''18014398509481990'')"
  have acc: "\<forall>k. accept_all k" by (simp add: accept_all_def)
  have ex: "exact_range (download_open ?cfg ?r ''r2'' 0)" by (rule huge_exact)
  from get_all_accepted [OF acc ex, of 2]
  obtain g where g: "download_get accept_all ?cfg ?r ''r2'' 0 2 = Some g" and w: "writableEnded g"
    by auto
  have tr: "download_trace accept_all ?cfg ?r ''r2'' 0 2 [] = Some g"
    using g by (simp add: download_trace_def)
  from static_trace [OF tr]
  have st: "total g = 18014398509481992" "content_length g = js_String 18014398509481992"
    by (simp_all add: huge_size)
  have "0 \<le> download_size ?cfg ?r" by (simp add: huge_size)
  from count_inv_trace [OF this ex tr] w st(1)
  have sm: "sum_list (written g) = 18014398509481992" by (simp add: count_inv_def)
  show ?thesis
    unfolding huge_trace_def tr
    by (simp add: w st sm huge_declared) (simp add: huge_string)
qed

text \<open>
  Claim C8. In the write loop, a refused write (\<^verbatim>\<open>res.write\<close> returned
  \<^verbatim>\<open>false\<close>) ends the call with that chunk as the last one written and one more
  one-shot drain listener registered; an accepted write goes on to the next chunk in the
  same call; so every chunk a call writes before its last one was accepted. No event but
  \<^verbatim>\<open>drain\<close> writes a chunk or touches the listener, a \<^verbatim>\<open>drain\<close> with no
  listener registered writes nothing, and a \<^verbatim>\<open>drain\<close> with the listener registered
  removes it and resumes the loop. Over a whole session: at most one listener is registered
  at any time, it is registered only while the last write stands refused, and the refused
  writes that were followed by a further chunk number at most the drain events received,
  so no chunk is generated while the one before it is unacknowledged. In the exact range
  the loop returns, and a session of a size below \<open>2 ^ 53\<close> reaches a state after any
  events.
\<close>

theorem write_loop_backpressure:
  "(0 < remaining s \<and> \<not> ok (length (written s)) \<longrightarrow>
      writeLoop ok now s =
        Some (s\<lparr>remaining := double_sub (remaining s) (min CHUNK (remaining s)),
                written := written s @ [min CHUNK (remaining s)],
                drain_listeners := drain_listeners s + 1\<rparr>)) \<and>
   (0 < remaining s \<and> ok (length (written s)) \<longrightarrow>
      writeLoop ok now s =
        writeLoop ok now
          (s\<lparr>remaining := double_sub (remaining s) (min CHUNK (remaining s)),
             written := written s @ [min CHUNK (remaining s)]\<rparr>)) \<and>
   (writeLoop ok now s = Some s1 \<longrightarrow>
      (\<forall>i. length (written s) \<le> i \<and> Suc i < length (written s1) \<longrightarrow> ok i)) \<and>
   (exact_range s \<longrightarrow> (\<exists>s1. writeLoop ok now s = Some s1)) \<and>
   (\<not> is_drain e \<longrightarrow>
      map_option written (download_step ok (t, e) s) = Some (written s) \<and>
      map_option drain_listeners (download_step ok (t, e) s) = Some (drain_listeners s)) \<and>
   (drain_listeners s = 0 \<longrightarrow>
      map_option written (download_step ok (t, Drain) s) = Some (written s)) \<and>
   (drain_listeners s = 1 \<and> \<not> ended s \<longrightarrow>
      download_step ok (t, Drain) s = writeLoop ok t (s\<lparr>drain_listeners := 0\<rparr>)) \<and>
   (download_trace ok cfg r rid t0 t1 es = Some s' \<longrightarrow>
      drain_listeners s' \<le> 1 \<and>
      (drain_listeners s' = 1 \<longrightarrow> written s' \<noteq> [] \<and> \<not> ok (length (written s') - 1)) \<and>
      refused ok (length (written s') - 1) \<le> drains es) \<and>
   (download_size cfg r < 2 ^ 53 \<longrightarrow> (\<exists>s'. download_trace ok cfg r rid t0 t1 es = Some s'))"
proof -
  have a: "0 < remaining s \<and> \<not> ok (length (written s)) \<longrightarrow>
      writeLoop ok now s =
        Some (s\<lparr>remaining := double_sub (remaining s) (min CHUNK (remaining s)),
                written := written s @ [min CHUNK (remaining s)],
                drain_listeners := drain_listeners s + 1\<rparr>)"
    using writeLoop_refused [of s ok now] by blast
  have b: "0 < remaining s \<and> ok (length (written s)) \<longrightarrow>
      writeLoop ok now s =
        writeLoop ok now
          (s\<lparr>remaining := double_sub (remaining s) (min CHUNK (remaining s)),
             written := written s @ [min CHUNK (remaining s)]\<rparr>)"
    using writeLoop_accepted [of s ok now] by blast
  have c: "writeLoop ok now s = Some s1 \<longrightarrow>
      (\<forall>i. length (written s) \<le> i \<and> Suc i < length (written s1) \<longrightarrow> ok i)"
    using writeLoop_written [of ok now s s1] by blast
  have c': "exact_range s \<longrightarrow> (\<exists>s1. writeLoop ok now s = Some s1)"
    using writeLoop_returns [of s ok now] by blast
  have d: "\<not> is_drain e \<longrightarrow>
      map_option written (download_step ok (t, e) s) = Some (written s) \<and>
      map_option drain_listeners (download_step ok (t, e) s) = Some (drain_listeners s)"
    using step_not_drain [of e ok t s] by blast
  have e: "drain_listeners s = 0 \<longrightarrow>
      map_option written (download_step ok (t, Drain) s) = Some (written s)"
    by simp
  have f: "drain_listeners s = 1 \<and> \<not> ended s \<longrightarrow>
      download_step ok (t, Drain) s = writeLoop ok t (s\<lparr>drain_listeners := 0\<rparr>)"
    by (simp add: calls_1 writeMore_def del: One_nat_def)
  have g: "download_trace ok cfg r rid t0 t1 es = Some s' \<longrightarrow>
      drain_listeners s' \<le> 1 \<and>
      (drain_listeners s' = 1 \<longrightarrow> written s' \<noteq> [] \<and> \<not> ok (length (written s') - 1)) \<and>
      refused ok (length (written s') - 1) \<le> drains es"
    using flow_inv_trace [of ok cfg r rid t0 t1 es s'] by (simp add: flow_inv_def)
  have h: "download_size cfg r < 2 ^ 53 \<longrightarrow>
      (\<exists>s'. download_trace ok cfg r rid t0 t1 es = Some s')"
    using trace_returns [OF exact_range_open] by blast
  from a b c c' d e f g h show ?thesis by (intro conjI)
qed

text \<open>
  With a consumer that refuses every write, the first call writes one chunk and waits; a
  close changes nothing; the first drain writes the second chunk and waits again; the
  second drain finds nothing left to write and ends the response.
\<close>

theorem write_loop_backpressure_witness:
  "writeLoop refuse_all 2 sample_open
     = Some (sample_open\<lparr>remaining := 34464, written := [65536], drain_listeners := 1\<rparr>) \<and>
   sample_trace refuse_all [] = Some sample_pending \<and>
   written sample_pending = [65536] \<and>
   drain_listeners sample_pending = 1 \<and>
   map_option written (download_step refuse_all (1, Close) sample_pending) = Some [65536] \<and>
   download_step refuse_all (2, Drain) sample_pending = Some sample_generated \<and>
   written sample_generated = [65536, 34464] \<and>
   drain_listeners sample_generated = 1 \<and>
   map_option written (download_step refuse_all (3, Drain) sample_generated)
     = Some [65536, 34464] \<and>
   map_option writableEnded (download_step refuse_all (3, Drain) sample_generated) = Some True \<and>
   refused refuse_all 1 = 1 \<and>
   drains [(2, Drain), (3, Drain)] = 2"
proof -
  have o: "0 < remaining sample_open \<and> \<not> refuse_all (length (written sample_open))"
    by (simp add: sample_open_eq refuse_all_def)
  note T1 = write_loop_backpressure
    [where ok = refuse_all and s = sample_open and now = 2 and e = Close and t = 1 and es = "[]"
      and cfg = "register_config no_env" and r = "Some (ascii ''100000'')" and rid = "''r1''"
      and ?t0.0 = 0 and ?t1.0 = 2 and ?s1.0 = sample_pending and s' = sample_pending]
  from T1 [THEN conjunct1] o
  have "writeLoop refuse_all 2 sample_open =
      Some (sample_open\<lparr>remaining := double_sub (remaining sample_open)
                (min CHUNK (remaining sample_open)),
              written := written sample_open @ [min CHUNK (remaining sample_open)],
              drain_listeners := drain_listeners sample_open + 1\<rparr>)"
    by (rule mp)
  then have a: "writeLoop refuse_all 2 sample_open
     = Some (sample_open\<lparr>remaining := 34464, written := [65536], drain_listeners := 1\<rparr>)"
    by (simp add: sample_open_eq CHUNK_def double_sub_def round_double_small)
  have t: "sample_trace refuse_all [] = Some sample_pending"
    by (simp add: sample_trace_eq sample_get_refuse_all)
  note T2 = write_loop_backpressure
    [where ok = refuse_all and s = sample_pending and now = 0 and e = Close and t = 1
      and es = "[]" and cfg = "register_config no_env" and r = "Some (ascii ''100000'')"
      and rid = "''r1''" and ?t0.0 = 0 and ?t1.0 = 2 and ?s1.0 = sample_pending
      and s' = sample_pending]
  have nd: "\<not> is_drain Close" by simp
  from T2 [THEN conjunct2, THEN conjunct2, THEN conjunct2, THEN conjunct2, THEN conjunct1] nd
  have "map_option written (download_step refuse_all (1, Close) sample_pending)
          = Some (written sample_pending) \<and>
        map_option drain_listeners (download_step refuse_all (1, Close) sample_pending)
          = Some (drain_listeners sample_pending)"
    by (rule mp)
  then have b: "map_option written (download_step refuse_all (1, Close) sample_pending)
      = Some [65536]"
    by (simp add: sample_pending_def)
  have c: "download_step refuse_all (2, Drain) sample_pending = Some sample_generated"
    by (simp add: sample_pending_def sample_generated_def loop_eval refuse_all_def)
  have d: "map_option written (download_step refuse_all (3, Drain) sample_generated)
     = Some [65536, 34464]"
    "map_option writableEnded (download_step refuse_all (3, Drain) sample_generated) = Some True"
    by (simp_all add: sample_generated_def loop_eval refuse_all_def)
  have e: "refused refuse_all 1 = 1" "drains [(2, Drain), (3, Drain)] = 2"
    by (simp_all add: refused_def refuse_all_def drains_def)
  have f: "written sample_pending = [65536]" "drain_listeners sample_pending = 1"
    "written sample_generated = [65536, 34464]" "drain_listeners sample_generated = 1"
    by (simp_all add: sample_pending_def sample_generated_def)
  from a t b c d e f show ?thesis by (intro conjI)
qed

text \<open>
  Claim C9. Once all chunks have been generated (\<open>remaining \<le> 0\<close>) or the response
  has been ended, \<^verbatim>\<open>abortOnce\<close> returns without effect: an \<^verbatim>\<open>aborted\<close> or a
  \<^verbatim>\<open>close\<close> event leaves the session as it is, an \<^verbatim>\<open>error\<close> event adds
  its error line only, and no trace of events whatever adds an abort line; in the exact
  range, so whenever nothing remains, every trace of events does reach a state. The end
  line can still be logged: a \<^verbatim>\<open>finish\<close> event on a session that has not ended logs it.
\<close>

theorem finish_wins_after_generation:
  assumes "remaining s \<le> 0 \<or> writableEnded s"
  shows "abortOnce s = s \<and>
         download_step ok (t, Aborted) s = Some s \<and>
         download_step ok (t, Close) s = Some s \<and>
         download_step ok (t, Error msg) s = Some (s\<lparr>log := log s @ [DlError msg]\<rparr>) \<and>
         (download_run ok es s = Some s' \<longrightarrow> abort_lines s' = abort_lines s) \<and>
         (exact_range s \<longrightarrow> (\<exists>s'. download_run ok es s = Some s')) \<and>
         (\<not> ended s \<longrightarrow>
            map_option terminal_lines (download_step ok (t, Finish) s)
              = Some (terminal_lines s @ [DlEnd (reqId s) (total s) (t - start s)]))"
proof -
  have g: "all_generated s" using assms by (simp add: all_generated_def)
  have g': "all_generated (s\<lparr>log := log s @ [DlError msg]\<rparr>)"
    using assms by (simp add: all_generated_def)
  have a: "abortOnce s = s" using g by (rule abortOnce_all_generated)
  have a': "download_step ok (t, Aborted) s = Some s" using a by simp
  have b: "download_step ok (t, Close) s = Some s" using a by simp
  have c: "download_step ok (t, Error msg) s = Some (s\<lparr>log := log s @ [DlError msg]\<rparr>)"
    using abortOnce_all_generated [OF g'] by simp
  have d: "download_run ok es s = Some s' \<longrightarrow> abort_lines s' = abort_lines s"
    using all_generated_run [OF g] by blast
  have d': "exact_range s \<longrightarrow> (\<exists>s'. download_run ok es s = Some s')"
    using run_returns_exact [of s ok es] by blast
  have e: "\<not> ended s \<longrightarrow> map_option terminal_lines (download_step ok (t, Finish) s)
              = Some (terminal_lines s @ [DlEnd (reqId s) (total s) (t - start s)])"
    by (simp add: terminal_lines_endOnce)
  from a a' b c d d' e show ?thesis by (intro conjI)
qed

text \<open>
  With a consumer that refuses the second (and last) write, all 100000 bytes are generated
  and the session waits for a drain: abort, close and error log no terminal line, and the
  drain that follows logs the end line.
\<close>

theorem finish_wins_after_generation_witness:
  "sample_trace refuse_second [] = Some sample_generated \<and>
   remaining sample_generated = 0 \<and>
   \<not> ended sample_generated \<and>
   abortOnce sample_generated = sample_generated \<and>
   download_step refuse_second (1, Aborted) sample_generated = Some sample_generated \<and>
   download_step refuse_second (2, Close) sample_generated = Some sample_generated \<and>
   map_option terminal_lines
     (download_run refuse_second [(1, Aborted), (2, Close), (3, Error ''reset'')]
        sample_generated) = Some [] \<and>
   map_option terminal_lines
     (download_run refuse_second [(1, Aborted), (2, Close), (3, Error ''reset''), (4, Drain)]
        sample_generated) = Some [DlEnd ''r1'' 100000 4] \<and>
   map_option terminal_lines (download_step refuse_second (5, Finish) sample_generated)
     = Some [DlEnd ''r1'' 100000 5]"
proof -
  have t: "sample_trace refuse_second [] = Some sample_generated"
    by (simp add: sample_trace_eq sample_get_refuse_second)
  have h: "remaining sample_generated \<le> 0 \<or> writableEnded sample_generated"
    by (simp add: sample_generated_def)
  have e: "\<not> ended sample_generated" "remaining sample_generated = 0"
    "terminal_lines sample_generated = []"
    "reqId sample_generated = ''r1''" "total sample_generated = 100000"
    "start sample_generated = 0"
    by (simp_all add: sample_generated_def terminal_lines_def)
  have a: "map_option terminal_lines
     (download_run refuse_second [(1, Aborted), (2, Close), (3, Error ''reset'')]
        sample_generated) = Some []"
    "map_option terminal_lines
     (download_run refuse_second [(1, Aborted), (2, Close), (3, Error ''reset''), (4, Drain)]
        sample_generated) = Some [DlEnd ''r1'' 100000 4]"
    by (simp_all add: sample_generated_def run_eval)
  note T = finish_wins_after_generation [OF h, where ok = refuse_second and es = "[]"
      and s' = sample_generated and msg = "''reset''"]
  from T [where t = 1]
  have b: "abortOnce sample_generated = sample_generated"
    "download_step refuse_second (1, Aborted) sample_generated = Some sample_generated"
    by blast+
  from T [where t = 2]
  have c: "download_step refuse_second (2, Close) sample_generated = Some sample_generated"
    by blast
  from T [where t = 5] e(1)
  have "map_option terminal_lines (download_step refuse_second (5, Finish) sample_generated)
     = Some (terminal_lines sample_generated @
         [DlEnd (reqId sample_generated) (total sample_generated) (5 - start sample_generated)])"
    by blast
  then have d: "map_option terminal_lines (download_step refuse_second (5, Finish) sample_generated)
     = Some [DlEnd ''r1'' 100000 5]"
    by (simp add: e)
  from t e(2) e(1) b c a d show ?thesis by (intro conjI)
qed

section \<open>Properties of the upload session\<close>

subsection \<open>The finalization guard\<close>

text \<open>A finished session stays finished and gains neither a terminal line nor a response; every listener preserves the guarantee.\<close>

lemma finished_dispatch: "finished s \<Longrightarrow> finished (upload_dispatch cfg ev s)"
proof -
  assume f: "finished s"
  obtain now e where ev: "ev = (now, e)" by (cases ev)
  show ?thesis
    using f ev
    by (cases e) (simp_all add: on_aborted_def on_data_def on_end_def on_error_def finishOnce_def Let_def)
qed

lemma finished_dispatch_same:
  "finished s \<Longrightarrow>
   outcome_lines (upload_dispatch cfg ev s) = outcome_lines s \<and>
   responses (upload_dispatch cfg ev s) = responses s \<and>
   u_log (upload_dispatch cfg ev s) = u_log s"
proof -
  assume f: "finished s"
  obtain now e where ev: "ev = (now, e)" by (cases ev)
  show ?thesis
    using f ev
    by (cases e)
      (simp_all add: on_aborted_def on_data_def on_end_def on_error_def finishOnce_def Let_def
        outcome_lines_def)
qed

lemma finished_handlers_run:
  "finished s \<Longrightarrow>
   finished (handlers_run cfg es s) \<and>
   outcome_lines (handlers_run cfg es s) = outcome_lines s \<and>
   responses (handlers_run cfg es s) = responses s"
  unfolding handlers_run_def
proof (induction es arbitrary: s)
  case Nil
  then show ?case by simp
next
  case (Cons ev es)
  from finished_dispatch [OF Cons.prems, of cfg ev] finished_dispatch_same [OF Cons.prems, of cfg ev]
       Cons.IH [of "upload_dispatch cfg ev s"]
  show ?case by simp
qed

lemma up_inv_dispatch: "up_inv cfg s \<Longrightarrow> up_inv cfg (upload_dispatch cfg ev s)"
proof -
  assume i: "up_inv cfg s"
  obtain now e where ev: "ev = (now, e)" by (cases ev)
  show ?thesis
  proof (cases "finished s")
    case True
    from finished_dispatch [OF True, of cfg ev] finished_dispatch_same [OF True, of cfg ev] i True
    show ?thesis by (auto simp: up_inv_def one_outcome_def split: list.splits)
  next
    case False
    with i have o: "outcome_lines s = []" "responses s = []" "bytes s \<le> MAX_UPLOAD cfg"
      by (auto simp: up_inv_def one_outcome_def split: list.splits)
    then have l: "filter up_terminal (u_log s) = []" by (simp add: outcome_lines_def)
    show ?thesis
      using False o l ev
      by (cases e)
        (simp_all add: up_inv_def one_outcome_def outcome_lines_def on_aborted_def on_data_def
          on_end_def on_error_def finishOnce_def Let_def)
  qed
qed

lemma up_inv_handlers_run: "up_inv cfg s \<Longrightarrow> up_inv cfg (handlers_run cfg es s)"
  unfolding handlers_run_def by (induction es arbitrary: s) (simp_all add: up_inv_dispatch)

lemma up_inv_open: "0 \<le> MAX_UPLOAD cfg \<Longrightarrow> up_inv cfg (upload_open rid now)"
  by (simp add: up_inv_def one_outcome_def outcome_lines_def upload_open_def)

lemma finalizes_dispatch: "finalizes e \<Longrightarrow> finished (upload_dispatch cfg (now, e) s)"
  by (cases e) (simp_all add: on_aborted_def on_end_def on_error_def finishOnce_def)

lemma finalizes_handlers_run:
  "\<exists>ev\<in>set es. finalizes (snd ev) \<Longrightarrow> finished (handlers_run cfg es s)"
proof (induction es arbitrary: s)
  case Nil
  then show ?case by simp
next
  case (Cons ev es)
  obtain now e where ev: "ev = (now, e)" by (cases ev)
  show ?case
  proof (cases "finalizes e")
    case True
    then have "finished (upload_dispatch cfg ev s)" using ev by (simp add: finalizes_dispatch)
    then have "finished (handlers_run cfg es (upload_dispatch cfg ev s))"
      using finished_handlers_run by blast
    then show ?thesis by (simp add: handlers_run_def)
  next
    case False
    with Cons.prems ev have "\<exists>ev\<in>set es. finalizes (snd ev)" by auto
    from Cons.IH [OF this] show ?thesis by (simp add: handlers_run_def)
  qed
qed

lemma up_inv_deliver: "up_inv cfg s \<Longrightarrow> up_inv cfg (upload_deliver cfg ev s)"
  by (simp add: upload_deliver_def up_inv_dispatch)

lemma up_inv_upload_run: "up_inv cfg s \<Longrightarrow> up_inv cfg (upload_run cfg es s)"
  unfolding upload_run_def by (induction es arbitrary: s) (simp_all add: up_inv_deliver)

lemma one_outcome_length:
  "one_outcome cfg s \<Longrightarrow>
   length (outcome_lines s) \<le> 1 \<and> length (responses s) \<le> 1 \<and>
   (finished s \<longleftrightarrow> length (outcome_lines s) = 1)"
proof -
  assume o: "one_outcome cfg s"
  show ?thesis
  proof (cases "outcome_lines s")
    case Nil
    with o show ?thesis by (simp add: one_outcome_def)
  next
    case (Cons l ls)
    with o have ls: "ls = []" and f: "finished s" and k: "outcome_ok cfg l (responses s)"
      by (simp_all add: one_outcome_def split: list.splits)
    from k have "length (responses s) \<le> 1" by (cases l) simp_all
    with Cons ls f show ?thesis by simp
  qed
qed

lemma first_event_wins:
  assumes "\<not> finished s"
  shows "outcome_lines (upload_dispatch cfg (t, UAborted) s) = outcome_lines s @ [UpAbort (u_reqId s)]"
    and "responses (upload_dispatch cfg (t, UAborted) s) = responses s"
    and "outcome_lines (upload_dispatch cfg (t, UEnd) s)
           = outcome_lines s @ [UpEnd (u_reqId s) (bytes s) (t - u_start s)]"
    and "responses (upload_dispatch cfg (t, UEnd) s)
           = responses s @ [(200, BytesMillis (bytes s) (t - u_start s))]"
    and "outcome_lines (upload_dispatch cfg (t, UError err) s) = outcome_lines s @ [UpError err]"
    and "responses (upload_dispatch cfg (t, UError err) s)
           = responses s @ [(500, Message ''Failed to receive upload'')]"
    and "MAX_UPLOAD cfg < bytes s + int (length chunk) \<Longrightarrow>
         outcome_lines (upload_dispatch cfg (t, UData chunk) s)
           = outcome_lines s @ [UpTooLarge (u_reqId s) (bytes s + int (length chunk)) (t - u_start s)]"
    and "MAX_UPLOAD cfg < bytes s + int (length chunk) \<Longrightarrow>
         responses (upload_dispatch cfg (t, UData chunk) s)
           = responses s @ [(413, MessageMax ''Payload too large'' (MAX_UPLOAD cfg))]"
    and "bytes s + int (length chunk) \<le> MAX_UPLOAD cfg \<Longrightarrow>
         upload_dispatch cfg (t, UData chunk) s = s\<lparr>bytes := bytes s + int (length chunk)\<rparr>"
  using assms
  by (simp_all add: on_aborted_def on_data_def on_end_def on_error_def finishOnce_def Let_def
      outcome_lines_def)

subsection \<open>Fragments\<close>

text \<open>Fragments within the ceiling are counted one by one; the first fragment above it leaves the breach state, which nothing changes afterwards.\<close>

lemma received_Nil [simp]: "received [] = 0"
  by (simp add: received_def)

lemma received_Cons [simp]: "received (d # ds) = int (length (snd d)) + received ds"
  by (simp add: received_def)









lemma breach_state_bytes [simp]:
  "breach_state cfg t b (s\<lparr>bytes := b'\<rparr>) = breach_state cfg t b s"
  by (simp add: breach_state_def)






subsection \<open>Sample sessions\<close>

text \<open>The configuration with a ceiling of 10 bytes, and the equations that evaluate a sample session.\<close>

lemma register_config_small_upload_env:
  "register_config small_upload_env =
     \<lparr>DEFAULT_SIZE = 10485760, MAX_DOWNLOAD = 104857600, MAX_UPLOAD = 10\<rparr>"
  by (simp add: register_config_def small_upload_env_def envInt_def parse_eval)

lemmas up_eval = handlers_run_def upload_run_def upload_deliver_def on_aborted_def on_data_def
  on_end_def on_error_def finishOnce_def upload_open_def outcome_lines_def sample_upload_def
  twelve_bytes_def data_events_def received_def register_config_small_upload_env Let_def

subsection \<open>Results\<close>

text \<open>
  Claim C2. For every upload session and every sequence of listener calls
  (\<^verbatim>\<open>aborted\<close>, \<^verbatim>\<open>data\<close>, \<^verbatim>\<open>end\<close>, \<^verbatim>\<open>error\<close>, in any order and
  number), there is at most one terminal log line and at most one response, and they go
  together: end with 200 and \<^verbatim>\<open>{bytes, millis}\<close>, too large with 413 and the
  ceiling, abort with no response, error with 500. There is exactly one as soon as an
  \<^verbatim>\<open>aborted\<close>, \<^verbatim>\<open>end\<close> or \<^verbatim>\<open>error\<close> event has fired or the byte
  count is above the ceiling. The first event to reach the guard decides: from a session
  not yet finished each event produces its own outcome, and in a finished session no
  later event adds a terminal line or a response. The same guarantee holds when the
  request stops emitting \<^verbatim>\<open>data\<close> once paused or destroyed.
\<close>

theorem upload_single_outcome:
  "(let s = handlers_run (register_config env) es (upload_open rid t0) in
      one_outcome (register_config env) s \<and>
      length (outcome_lines s) \<le> 1 \<and> length (responses s) \<le> 1 \<and>
      (finished s \<longleftrightarrow> length (outcome_lines s) = 1) \<and>
      ((\<exists>ev\<in>set es. finalizes (snd ev)) \<longrightarrow> finished s) \<and>
      (MAX_UPLOAD (register_config env) < bytes s \<longrightarrow> finished s) \<and>
      (finished s \<longrightarrow>
         outcome_lines (handlers_run (register_config env) es' s) = outcome_lines s \<and>
         responses (handlers_run (register_config env) es' s) = responses s)) \<and>
   one_outcome (register_config env) (upload_run (register_config env) es (upload_open rid t0)) \<and>
   (\<not> finished s0 \<longrightarrow>
      outcome_lines (upload_dispatch cfg (t, UAborted) s0) = outcome_lines s0 @ [UpAbort (u_reqId s0)] \<and>
      responses (upload_dispatch cfg (t, UAborted) s0) = responses s0 \<and>
      outcome_lines (upload_dispatch cfg (t, UEnd) s0)
        = outcome_lines s0 @ [UpEnd (u_reqId s0) (bytes s0) (t - u_start s0)] \<and>
      responses (upload_dispatch cfg (t, UEnd) s0)
        = responses s0 @ [(200, BytesMillis (bytes s0) (t - u_start s0))] \<and>
      outcome_lines (upload_dispatch cfg (t, UError err) s0) = outcome_lines s0 @ [UpError err] \<and>
      responses (upload_dispatch cfg (t, UError err) s0)
        = responses s0 @ [(500, Message ''Failed to receive upload'')] \<and>
      (MAX_UPLOAD cfg < bytes s0 + int (length chunk) \<longrightarrow>
         outcome_lines (upload_dispatch cfg (t, UData chunk) s0)
           = outcome_lines s0
               @ [UpTooLarge (u_reqId s0) (bytes s0 + int (length chunk)) (t - u_start s0)] \<and>
         responses (upload_dispatch cfg (t, UData chunk) s0)
           = responses s0 @ [(413, MessageMax ''Payload too large'' (MAX_UPLOAD cfg))]) \<and>
      (bytes s0 + int (length chunk) \<le> MAX_UPLOAD cfg \<longrightarrow>
         upload_dispatch cfg (t, UData chunk) s0 = s0\<lparr>bytes := bytes s0 + int (length chunk)\<rparr>))"
proof -
  let ?cfg = "register_config env"
  let ?s = "handlers_run ?cfg es (upload_open rid t0)"
  have mx: "0 \<le> MAX_UPLOAD ?cfg" using register_config_pos(3) [of env] by simp
  have inv: "up_inv ?cfg ?s" by (intro up_inv_handlers_run up_inv_open mx)
  then have o: "one_outcome ?cfg ?s" and b: "MAX_UPLOAD ?cfg < bytes ?s \<longrightarrow> finished ?s"
    by (auto simp: up_inv_def)
  note l = one_outcome_length [OF o]
  have f: "(\<exists>ev\<in>set es. finalizes (snd ev)) \<longrightarrow> finished ?s"
    using finalizes_handlers_run by blast
  have w: "finished ?s \<longrightarrow>
         outcome_lines (handlers_run ?cfg es' ?s) = outcome_lines ?s \<and>
         responses (handlers_run ?cfg es' ?s) = responses ?s"
    using finished_handlers_run by blast
  have "up_inv ?cfg (upload_run ?cfg es (upload_open rid t0))"
    by (intro up_inv_upload_run up_inv_open mx)
  then have g: "one_outcome ?cfg (upload_run ?cfg es (upload_open rid t0))"
    by (simp add: up_inv_def)
  have first: "let s = ?s in
      one_outcome ?cfg s \<and>
      length (outcome_lines s) \<le> 1 \<and> length (responses s) \<le> 1 \<and>
      (finished s \<longleftrightarrow> length (outcome_lines s) = 1) \<and>
      ((\<exists>ev\<in>set es. finalizes (snd ev)) \<longrightarrow> finished s) \<and>
      (MAX_UPLOAD ?cfg < bytes s \<longrightarrow> finished s) \<and>
      (finished s \<longrightarrow>
         outcome_lines (handlers_run ?cfg es' s) = outcome_lines s \<and>
         responses (handlers_run ?cfg es' s) = responses s)"
    unfolding Let_def using o l f b w by (intro conjI) blast+
  have third: "\<not> finished s0 \<longrightarrow>
      outcome_lines (upload_dispatch cfg (t, UAborted) s0) = outcome_lines s0 @ [UpAbort (u_reqId s0)] \<and>
      responses (upload_dispatch cfg (t, UAborted) s0) = responses s0 \<and>
      outcome_lines (upload_dispatch cfg (t, UEnd) s0)
        = outcome_lines s0 @ [UpEnd (u_reqId s0) (bytes s0) (t - u_start s0)] \<and>
      responses (upload_dispatch cfg (t, UEnd) s0)
        = responses s0 @ [(200, BytesMillis (bytes s0) (t - u_start s0))] \<and>
      outcome_lines (upload_dispatch cfg (t, UError err) s0) = outcome_lines s0 @ [UpError err] \<and>
      responses (upload_dispatch cfg (t, UError err) s0)
        = responses s0 @ [(500, Message ''Failed to receive upload'')] \<and>
      (MAX_UPLOAD cfg < bytes s0 + int (length chunk) \<longrightarrow>
         outcome_lines (upload_dispatch cfg (t, UData chunk) s0)
           = outcome_lines s0
               @ [UpTooLarge (u_reqId s0) (bytes s0 + int (length chunk)) (t - u_start s0)] \<and>
         responses (upload_dispatch cfg (t, UData chunk) s0)
           = responses s0 @ [(413, MessageMax ''Payload too large'' (MAX_UPLOAD cfg))]) \<and>
      (bytes s0 + int (length chunk) \<le> MAX_UPLOAD cfg \<longrightarrow>
         upload_dispatch cfg (t, UData chunk) s0 = s0\<lparr>bytes := bytes s0 + int (length chunk)\<rparr>)"
  proof
    assume n: "\<not> finished s0"
    show "outcome_lines (upload_dispatch cfg (t, UAborted) s0) = outcome_lines s0 @ [UpAbort (u_reqId s0)] \<and>
      responses (upload_dispatch cfg (t, UAborted) s0) = responses s0 \<and>
      outcome_lines (upload_dispatch cfg (t, UEnd) s0)
        = outcome_lines s0 @ [UpEnd (u_reqId s0) (bytes s0) (t - u_start s0)] \<and>
      responses (upload_dispatch cfg (t, UEnd) s0)
        = responses s0 @ [(200, BytesMillis (bytes s0) (t - u_start s0))] \<and>
      outcome_lines (upload_dispatch cfg (t, UError err) s0) = outcome_lines s0 @ [UpError err] \<and>
      responses (upload_dispatch cfg (t, UError err) s0)
        = responses s0 @ [(500, Message ''Failed to receive upload'')] \<and>
      (MAX_UPLOAD cfg < bytes s0 + int (length chunk) \<longrightarrow>
         outcome_lines (upload_dispatch cfg (t, UData chunk) s0)
           = outcome_lines s0
               @ [UpTooLarge (u_reqId s0) (bytes s0 + int (length chunk)) (t - u_start s0)] \<and>
         responses (upload_dispatch cfg (t, UData chunk) s0)
           = responses s0 @ [(413, MessageMax ''Payload too large'' (MAX_UPLOAD cfg))]) \<and>
      (bytes s0 + int (length chunk) \<le> MAX_UPLOAD cfg \<longrightarrow>
         upload_dispatch cfg (t, UData chunk) s0 = s0\<lparr>bytes := bytes s0 + int (length chunk)\<rparr>)"
      using first_event_wins [OF n] by (intro conjI impI) blast+
  qed
  from first g third show ?thesis by (intro conjI)
qed

text \<open>
  With a ceiling of 10 bytes: abort before end and error gives the abort line and no
  response; end before abort gives 200; a fragment of twelve bytes gives 413 whatever
  follows; error before end gives 500.
\<close>

theorem upload_single_outcome_witness:
  "outcome_lines
     (handlers_run (register_config small_upload_env)
        [(1, UData [1, 2, 3]), (2, UAborted), (3, UEnd), (4, UError ''reset'')] sample_upload)
     = [UpAbort ''u1''] \<and>
   responses
     (handlers_run (register_config small_upload_env)
        [(1, UData [1, 2, 3]), (2, UAborted), (3, UEnd), (4, UError ''reset'')] sample_upload)
     = [] \<and>
   responses
     (handlers_run (register_config small_upload_env)
        [(1, UData [1, 2, 3]), (2, UEnd), (3, UAborted)] sample_upload)
     = [(200, BytesMillis 3 2)] \<and>
   responses
     (handlers_run (register_config small_upload_env)
        [(1, UData twelve_bytes), (2, UEnd), (3, UData [1])] sample_upload)
     = [(413, MessageMax ''Payload too large'' 10)] \<and>
   responses
     (handlers_run (register_config small_upload_env)
        [(1, UError ''reset''), (2, UEnd), (3, UData twelve_bytes)] sample_upload)
     = [(500, Message ''Failed to receive upload'')] \<and>
   outcome_lines (upload_dispatch (register_config small_upload_env) (7, UEnd) sample_upload)
     = [UpEnd ''u1'' 0 7]"
proof -
  have n: "\<not> finished sample_upload" "outcome_lines sample_upload = []"
    "u_reqId sample_upload = ''u1''" "bytes sample_upload = 0" "u_start sample_upload = 0"
    by (simp_all add: up_eval)
  have f: "\<exists>ev\<in>set [(1, UData [1, 2, 3]), (2, UAborted), (3, UEnd), (4, UError ''reset'')].
             finalizes (snd ev)"
    by simp
  from upload_single_outcome
    [where env = small_upload_env and rid = "''u1''" and ?t0.0 = 0 and es' = "[]"
      and es = "[(1, UData [1, 2, 3]), (2, UAborted), (3, UEnd), (4, UError ''reset'')]"
      and ?s0.0 = sample_upload and cfg = "register_config small_upload_env" and t = 7
      and err = "''reset''" and chunk = "[]", THEN conjunct2, THEN conjunct2] n
  have a: "outcome_lines (upload_dispatch (register_config small_upload_env) (7, UEnd) sample_upload)
     = [UpEnd ''u1'' 0 7]"
    by simp
  have b: "outcome_lines
     (handlers_run (register_config small_upload_env)
        [(1, UData [1, 2, 3]), (2, UAborted), (3, UEnd), (4, UError ''reset'')] sample_upload)
     = [UpAbort ''u1'']"
    "responses
     (handlers_run (register_config small_upload_env)
        [(1, UData [1, 2, 3]), (2, UAborted), (3, UEnd), (4, UError ''reset'')] sample_upload)
     = []"
    "responses
     (handlers_run (register_config small_upload_env)
        [(1, UData [1, 2, 3]), (2, UEnd), (3, UAborted)] sample_upload)
     = [(200, BytesMillis 3 2)]"
    "responses
     (handlers_run (register_config small_upload_env)
        [(1, UData twelve_bytes), (2, UEnd), (3, UData [1])] sample_upload)
     = [(413, MessageMax ''Payload too large'' 10)]"
    "responses
     (handlers_run (register_config small_upload_env)
        [(1, UError ''reset''), (2, UEnd), (3, UData twelve_bytes)] sample_upload)
     = [(500, Message ''Failed to receive upload'')]"
    by (simp_all add: up_eval)
  from a b show ?thesis by simp
qed







end
